theory Spec2Isabelle
  imports Main "HOL-Library.Multiset"
begin

text \<open>
  The repository holds several variants of a program that merges delimited files on a key
  column. The model follows \<open>merger2.c\<close>, the merge engine with per-file tables, the
  eligibility set, sampling and the wide output, function by function; from \<open>code3.c\<close> it
  takes \<open>print_csv_field\<close>, the one writer of the repository that quotes fields.
\<close>

section \<open>C strings and small helpers (merger2.c)\<close>

text \<open>
  A C string is modelled as a \<open>string\<close> (a list of bytes) that holds the characters before
  the terminating NUL. A buffer that may hold NUL bytes (what \<open>fgets\<close> read from a file) is
  cut at its first NUL by \<open>cstr\<close> before it is used as a string, as \<open>strlen\<close> and every
  loop \<open>for (; *p; ++p)\<close> of the source do. Allocation is assumed to succeed
  (the source exits on a failed \<open>malloc\<close>).
\<close>

definition cstr :: "string \<Rightarrow> string" where
  "cstr buf = takeWhile (\<lambda>c. c \<noteq> CHR 0x00) buf"

definition is_eol :: "char \<Rightarrow> bool" where
  "is_eol c = (c = CHR 0x0A \<or> c = CHR 0x0D)"

text \<open>\<open>trim_eol\<close>: drop every trailing line feed and carriage return.\<close>

definition trim_eol :: "string \<Rightarrow> string" where
  "trim_eol s = rev (dropWhile is_eol (rev s))"

text \<open>\<open>tolower\<close> and \<open>isdigit\<close> of the C locale, on bytes.\<close>

definition c_tolower :: "char \<Rightarrow> char" where
  "c_tolower c = (if 65 \<le> (of_char c :: nat) \<and> (of_char c :: nat) \<le> 90
                  then char_of ((of_char c :: nat) + 32) else c)"

definition c_isdigit :: "char \<Rightarrow> bool" where
  "c_isdigit c = (48 \<le> (of_char c :: nat) \<and> (of_char c :: nat) \<le> 57)"

definition tolower_inplace :: "string \<Rightarrow> string" where
  "tolower_inplace s = map c_tolower s"

text \<open>
  \<open>strrchr\<close> returns the suffix that starts at the last occurrence of the character;
  \<open>strstr\<close> the suffix that starts at the first occurrence of the needle.
\<close>

fun strrchr :: "string \<Rightarrow> char \<Rightarrow> string option" where
  "strrchr [] c = None"
| "strrchr (x # xs) c =
     (case strrchr xs c of
        Some r \<Rightarrow> Some r
      | None \<Rightarrow> if x = c then Some (x # xs) else None)"

fun starts_with :: "string \<Rightarrow> string \<Rightarrow> bool" where
  "starts_with s [] = True"
| "starts_with [] (n # ns) = False"
| "starts_with (x # xs) (n # ns) = (x = n \<and> starts_with xs ns)"

fun strstr :: "string \<Rightarrow> string \<Rightarrow> string option" where
  "strstr [] needle = (if needle = [] then Some [] else None)"
| "strstr (x # xs) needle =
     (if starts_with (x # xs) needle then Some (x # xs) else strstr xs needle)"

text \<open>
  \<open>file_stem(path, out, outsz)\<close>: the part of the path after the last slash, up to its last
  dot, cut to \<open>outsz - 1\<close> characters (the build is not a Windows one).
\<close>

definition file_stem :: "string \<Rightarrow> nat \<Rightarrow> string" where
  "file_stem path outsz =
     (let base = (case strrchr path (CHR ''/'') of Some b \<Rightarrow> tl b | None \<Rightarrow> path);
          len = (case strrchr base (CHR ''.'') of
                   Some d \<Rightarrow> length base - length d
                 | None \<Rightarrow> length base);
          len' = (if len \<ge> outsz then outsz - 1 else len)
      in take len' base)"

section \<open>DelimitedLineParser: \<open>parse_delim_line\<close> (merger2.c)\<close>

text \<open>
  The loop of \<open>parse_delim_line\<close>, with the text not yet read as its last argument:
  \<open>inQuotes\<close> is the quote state and \<open>buf\<close> the field being collected. Reaching the end of the
  line pushes the last field. \<open>p[1]\<close> at the last character is the terminating NUL, which is
  not a quote.
\<close>

fun parse_loop :: "char \<Rightarrow> bool \<Rightarrow> string \<Rightarrow> string \<Rightarrow> string list" where
  "parse_loop delim inQuotes buf [] = [buf]"
| "parse_loop delim inQuotes buf [c] =
     (if inQuotes then
        (if c = CHR 0x22 then parse_loop delim False buf []
         else parse_loop delim True (buf @ [c]) [])
      else
        (if c = CHR 0x22 then parse_loop delim True buf []
         else if c = delim then buf # parse_loop delim False [] []
         else parse_loop delim False (buf @ [c]) []))"
| "parse_loop delim inQuotes buf (c # c' # cs) =
     (if inQuotes then
        (if c = CHR 0x22 then
           (if c' = CHR 0x22 then parse_loop delim True (buf @ [CHR 0x22]) cs
            else parse_loop delim False buf (c' # cs))
         else parse_loop delim True (buf @ [c]) (c' # cs))
      else
        (if c = CHR 0x22 then parse_loop delim True buf (c' # cs)
         else if c = delim then buf # parse_loop delim False [] (c' # cs)
         else parse_loop delim False (buf @ [c]) (c' # cs)))"

definition parse_delim_line :: "string \<Rightarrow> char \<Rightarrow> string list" where
  "parse_delim_line line delim = parse_loop delim False [] line"

section \<open>Quoting on output: \<open>print_csv_field\<close> (code3.c)\<close>

text \<open>
  \<open>print_csv_field\<close> writes nothing for a null pointer. Otherwise it looks for a comma, a
  double quote, a line feed or a carriage return; without one the string is written as it
  is, with one it is written between double quotes, every double quote of it twice.
\<close>

definition need_quotes :: "string \<Rightarrow> bool" where
  "need_quotes s =
     list_ex (\<lambda>c. c = CHR '','' \<or> c = CHR 0x22 \<or> c = CHR 0x0A \<or> c = CHR 0x0D) s"

primrec escape_quotes :: "string \<Rightarrow> string" where
  "escape_quotes [] = []"
| "escape_quotes (c # cs) =
     (if c = CHR 0x22 then CHR 0x22 # c # escape_quotes cs else c # escape_quotes cs)"

definition print_csv_field :: "string option \<Rightarrow> string" where
  "print_csv_field s =
     (case s of
        None \<Rightarrow> []
      | Some t \<Rightarrow>
          if \<not> need_quotes t then t
          else [CHR 0x22] @ escape_quotes t @ [CHR 0x22])"

section \<open>Reading lines: \<open>fgets\<close>\<close>

text \<open>
  \<open>fgets(line, size, fp)\<close> reads at most \<open>size - 1\<close> characters and stops after a line feed;
  at the end of the file, with nothing read, it returns a null pointer. \<open>fgets_split n s\<close> is
  the text read (at most \<open>n\<close> characters) and the rest of the file. \<open>file_lines\<close> is the
  sequence of buffers that successive calls with \<open>MAX_LINE_LEN\<close> return.
\<close>

definition MAX_LINE_LEN :: nat where
  "MAX_LINE_LEN = 65536"

fun fgets_split :: "nat \<Rightarrow> string \<Rightarrow> string \<times> string" where
  "fgets_split n [] = ([], [])"
| "fgets_split n (c # cs) =
     (if n = 0 then ([], c # cs)
      else if c = CHR 0x0A then ([c], cs)
      else (case fgets_split (n - 1) cs of (l, r) \<Rightarrow> (c # l, r)))"

lemma fgets_split_rest_le: "length (snd (fgets_split n s)) \<le> length s"
proof (induction s arbitrary: n)
  case Nil
  show ?case by simp
next
  case (Cons c cs)
  show ?case
    using Cons.IH [of "n - 1"] by (cases "fgets_split (n - 1) cs") auto
qed

lemma fgets_split_rest_less:
  "0 < n \<Longrightarrow> s \<noteq> [] \<Longrightarrow> length (snd (fgets_split n s)) < length s"
proof (cases s)
  case Nil
  assume "s \<noteq> []"
  with Nil show ?thesis by simp
next
  case (Cons c cs)
  assume "0 < n"
  then show ?thesis
    using fgets_split_rest_le [of "n - 1" cs] Cons
    by (auto split: prod.splits simp: less_Suc_eq_le)
qed

function file_lines :: "string \<Rightarrow> string list" where
  "file_lines [] = []"
| "file_lines (c # cs) =
     fst (fgets_split (MAX_LINE_LEN - 1) (c # cs))
       # file_lines (snd (fgets_split (MAX_LINE_LEN - 1) (c # cs)))"
  by pat_completeness auto
termination
proof (relation "measure length")
  show "wf (measure length)" by simp
next
  fix c :: char and cs :: string
  have "length (snd (fgets_split (MAX_LINE_LEN - 1) (c # cs))) < length (c # cs)"
    by (rule fgets_split_rest_less) (simp_all add: MAX_LINE_LEN_def)
  then show "(snd (fgets_split (MAX_LINE_LEN - 1) (c # cs)), c # cs) \<in> measure length"
    by simp
qed

section \<open>The chained hash map \<open>HMap\<close> (merger2.c)\<close>

text \<open>
  An entry is a key with its \<open>int\<close> value; a bucket is the chain of its entries, the head
  first. \<open>djb2\<close> computes in \<open>unsigned long\<close>, taken as 64 bits wide. The \<open>own_copy\<close> flag of
  \<open>hmap_put\<close> chooses between a copy of the key and the caller's pointer; the strings are
  never changed afterwards, so the model stores the key's text in both cases. \<open>hmap_get\<close>
  returns the value of the entry found (the source returns the entry, of which its callers
  read the value or test for null).
\<close>

type_synonym Entry = "string \<times> int"

record HMap =
  buckets :: "nat \<Rightarrow> Entry list"
  nb :: nat

definition HASH_BUCKETS :: nat where
  "HASH_BUCKETS = 200003"

definition djb2 :: "string \<Rightarrow> nat" where
  "djb2 s = foldl (\<lambda>h c. ((((h * 2 ^ 5) mod 2 ^ 64 + h) mod 2 ^ 64) + of_char c) mod 2 ^ 64)
              5381 s"

definition hmap_init :: "nat \<Rightarrow> HMap" where
  "hmap_init n = \<lparr>buckets = (\<lambda>b. []), nb = n\<rparr>"

primrec chain_set :: "string \<Rightarrow> int \<Rightarrow> Entry list \<Rightarrow> Entry list" where
  "chain_set key v [] = []"
| "chain_set key v (e # es) =
     (if fst e = key then (fst e, v) # es else e # chain_set key v es)"

definition hmap_put :: "HMap \<Rightarrow> string \<Rightarrow> int \<Rightarrow> HMap" where
  "hmap_put m key v =
     (let h = djb2 key mod nb m;
          chain = buckets m h
      in if map_of chain key = None
         then m\<lparr>buckets := (buckets m)(h := (key, v) # chain)\<rparr>
         else m\<lparr>buckets := (buckets m)(h := chain_set key v chain)\<rparr>)"

definition hmap_get :: "HMap \<Rightarrow> string \<Rightarrow> int option" where
  "hmap_get m key = map_of (buckets m (djb2 key mod nb m)) key"

text \<open>The keys met by the loop over all buckets and, in each, along the chain.\<close>

definition hmap_keys :: "HMap \<Rightarrow> string list" where
  "hmap_keys m = concat (map (\<lambda>b. map fst (buckets m b)) [0..<nb m])"

section \<open>Conversions between \<open>int\<close> and \<open>size_t\<close>\<close>

text \<open>
  \<open>int\<close> is 32 bits wide and \<open>size_t\<close> 64. \<open>(int) n\<close> keeps the low 32 bits of \<open>n\<close>, read in
  two's complement; \<open>(size_t) i\<close> is \<open>i\<close> modulo \<open>2 ^ 64\<close>.
\<close>

definition int_of_size_t :: "nat \<Rightarrow> int" where
  "int_of_size_t n = (let m = int n mod 2 ^ 32 in if m < 2 ^ 31 then m else m - 2 ^ 32)"

definition size_t_of_int :: "int \<Rightarrow> nat" where
  "size_t_of_int i = nat (i mod 2 ^ 64)"

section \<open>SchemaDetector: \<open>detect_id_col\<close>, \<open>parse_claim_year_from_name\<close> (merger2.c)\<close>

text \<open>
  \<open>snprintf(buf, 512, "%s", cols[i])\<close> keeps the first 511 characters of the column name,
  which are then lowercased and searched.
\<close>

definition lower_name :: "string \<Rightarrow> string" where
  "lower_name c = tolower_inplace (take 511 c)"

definition has_sub :: "string \<Rightarrow> string \<Rightarrow> bool" where
  "has_sub s needle = (case strstr s needle of None \<Rightarrow> False | Some r \<Rightarrow> True)"

fun detect_first :: "string list \<Rightarrow> nat \<Rightarrow> nat option" where
  "detect_first [] i = None"
| "detect_first (c # cs) i =
     (if has_sub (lower_name c) ''application_number'' then Some i
      else detect_first cs (Suc i))"

fun detect_second :: "string list \<Rightarrow> nat \<Rightarrow> nat option \<Rightarrow> nat" where
  "detect_second [] i best = (case best of Some b \<Rightarrow> b | None \<Rightarrow> 0)"
| "detect_second (c # cs) i best =
     (if has_sub (lower_name c) ''patent''
         \<and> (has_sub (lower_name c) ''number'' \<or> has_sub (lower_name c) ''id'')
      then i
      else detect_second cs (Suc i)
             (if has_sub (lower_name c) ''app'' \<and> has_sub (lower_name c) ''number''
              then (case best of None \<Rightarrow> Some i | Some b \<Rightarrow> Some b)
              else best))"

definition detect_id_col :: "string list \<Rightarrow> nat" where
  "detect_id_col cs =
     (case detect_first cs 0 of
        Some i \<Rightarrow> i
      | None \<Rightarrow> detect_second cs 0 None)"

definition digit_val :: "char \<Rightarrow> nat" where
  "digit_val c = of_char c - 48"

definition parse_claim_year_from_name :: "string \<Rightarrow> nat" where
  "parse_claim_year_from_name p =
     (let stem = tolower_inplace (file_stem p 512) in
      case strstr stem ''claims_'' of
        None \<Rightarrow> 0
      | Some q \<Rightarrow>
          (case drop 7 q of
             [] \<Rightarrow> 0
           | c # r \<Rightarrow>
               if \<not> c_isdigit c then 0
               else foldl (\<lambda>year d. year * 10 + digit_val d) 0
                      (takeWhile c_isdigit (take 4 (c # r)))))"

section \<open>FileTable: \<open>FileStore\<close> and ingestion (merger2.c)\<close>

text \<open>
  The arrays \<open>ids\<close> and \<open>cells\<close> with their count \<open>nrows\<close> are lists (\<open>caprows\<close> is only the
  allocated capacity); \<open>cols\<close> with \<open>ncols\<close> is a list, and \<open>n_nonid\<close> is \<open>ncols - 1\<close>, or 0
  without columns. A cell is a pointer to a string or null. The column index \<open>id_col\<close> and
  the year are never negative.
\<close>

record FileStore =
  path :: string
  delim :: char
  id_col :: nat
  is_claim :: bool
  claim_year :: nat
  cols :: "string list"
  id_to_idx :: HMap
  ids :: "string list"
  cells :: "string option list list"

definition nrows :: "FileStore \<Rightarrow> nat" where
  "nrows fs = length (ids fs)"

definition ncols :: "FileStore \<Rightarrow> nat" where
  "ncols fs = length (cols fs)"

definition n_nonid :: "FileStore \<Rightarrow> nat" where
  "n_nonid fs = (if ncols fs > 0 then ncols fs - 1 else 0)"

definition MERGE_SEP :: string where
  "MERGE_SEP = '' || ''"

definition filestore_init :: "string \<Rightarrow> FileStore" where
  "filestore_init p =
     \<lparr>path = p, delim = CHR '','', id_col = 0, is_claim = False, claim_year = 0,
      cols = [], id_to_idx = hmap_init HASH_BUCKETS, ids = [], cells = []\<rparr>"

text \<open>
  \<open>filestore_add_row\<close> appends the key and a row of \<open>n_nonid\<close> null cells, and maps the key
  to \<open>(int) nrows\<close>, which it returns. (\<open>calloc\<close> of zero cells is taken to return a non-null
  pointer, as glibc does.)
\<close>

definition filestore_add_row :: "FileStore \<Rightarrow> string \<Rightarrow> int \<times> FileStore" where
  "filestore_add_row fs key =
     (int_of_size_t (nrows fs),
      fs\<lparr>ids := ids fs @ [key],
         cells := cells fs @ [replicate (n_nonid fs) None],
         id_to_idx := hmap_put (id_to_idx fs) key (int_of_size_t (nrows fs))\<rparr>)"

definition filestore_get_or_create :: "FileStore \<Rightarrow> string \<Rightarrow> int \<times> FileStore" where
  "filestore_get_or_create fs key =
     (case hmap_get (id_to_idx fs) key of
        Some v \<Rightarrow> (v, fs)
      | None \<Rightarrow> filestore_add_row fs key)"

definition append_cell_merge :: "string option \<Rightarrow> string \<Rightarrow> string option" where
  "append_cell_merge dst src =
     (if src = [] then dst
      else (case dst of
              None \<Rightarrow> Some src
            | Some d \<Rightarrow> Some (d @ MERGE_SEP @ src)))"

text \<open>
  The loop over the fields of a data row: \<open>i\<close> is the field's index, \<open>k\<close> counts the
  fields passed that are not the key, \<open>row\<close> is \<open>cells[idx]\<close>.
\<close>

fun merge_fields ::
  "nat \<Rightarrow> nat \<Rightarrow> nat \<Rightarrow> nat \<Rightarrow> string list \<Rightarrow> string option list \<Rightarrow> string option list"
where
  "merge_fields idc nn i k [] row = row"
| "merge_fields idc nn i k (f # rest) row =
     (if i = idc then merge_fields idc nn (Suc i) k rest row
      else merge_fields idc nn (Suc i) (Suc k) rest
             (if k < nn then row[k := append_cell_merge (row ! k) f] else row))"

text \<open>
  \<open>cells[idx]\<close> is a row of the table when \<open>0 \<le> idx < nrows\<close>. Outside this range the
  access of the source is undefined; the model leaves the table as it is there, and the
  theorems below are stated where this does not happen.
\<close>

definition update_row ::
  "string option list list \<Rightarrow> int \<Rightarrow> (string option list \<Rightarrow> string option list)
   \<Rightarrow> string option list list" where
  "update_row cs idx f =
     (if 0 \<le> idx \<and> nat idx < length cs then cs[nat idx := f (cs ! nat idx)] else cs)"

text \<open>One turn of the loop \<open>while (fgets(line, sizeof(line), fp))\<close> of \<open>load_file\<close>.\<close>

definition load_line :: "FileStore \<Rightarrow> string \<Rightarrow> FileStore" where
  "load_line fs buf =
     (let line = trim_eol (cstr buf) in
      if line = [] then fs
      else
        let rowFields = parse_delim_line line (delim fs) in
        if length rowFields = 0 then fs
        else if id_col fs \<ge> length rowFields then fs
        else
          (case filestore_get_or_create fs (rowFields ! id_col fs) of
             (idx, fs') \<Rightarrow>
               fs'\<lparr>cells := update_row (cells fs') idx
                                (merge_fields (id_col fs) (n_nonid fs) 0 0 rowFields)\<rparr>))"

text \<open>
  \<open>load_file\<close> on the content of the file at the store's path, \<open>None\<close> when the file cannot
  be opened; the result \<open>None\<close> is \<open>exit(1)\<close>. A file without a first line leaves the store
  as \<open>filestore_init\<close> made it.
\<close>

definition load_file :: "FileStore \<Rightarrow> string option \<Rightarrow> FileStore option" where
  "load_file fs content =
     (case content of
        None \<Rightarrow> None
      | Some data \<Rightarrow>
          (case file_lines data of
             [] \<Rightarrow> Some fs
           | hdr # rest \<Rightarrow>
               let line = trim_eol (cstr hdr);
                   d = (if CHR 0x09 \<in> set line \<and> CHR '','' \<notin> set line
                        then CHR 0x09 else CHR '','');
                   year = parse_claim_year_from_name (path fs);
                   headerFields = parse_delim_line line d;
                   fs1 = fs\<lparr>delim := d, claim_year := year,
                            is_claim := (if year > 0 then True else is_claim fs),
                            cols := headerFields,
                            id_col := detect_id_col headerFields\<rparr>
               in Some (foldl load_line fs1 rest)))"

section \<open>EligibilitySetBuilder: \<open>build_eligible_ids\<close> (merger2.c)\<close>

definition claims_union :: "FileStore list \<Rightarrow> HMap" where
  "claims_union fss =
     foldl (\<lambda>m f. if is_claim f then foldl (\<lambda>m' key. hmap_put m' key (- 1)) m (ids f) else m)
       (hmap_init HASH_BUCKETS) fss"

definition have_claims :: "FileStore list \<Rightarrow> bool" where
  "have_claims fss = list_ex is_claim fss"

text \<open>The loop that chooses \<open>baseIndex\<close>; \<open>None\<close> is the initial \<open>-1\<close>.\<close>

definition base_step :: "FileStore list \<Rightarrow> nat option \<Rightarrow> nat \<Rightarrow> nat option" where
  "base_step fss b i =
     (if is_claim (fss ! i) then b
      else (case b of
              None \<Rightarrow> Some i
            | Some j \<Rightarrow> if nrows (fss ! i) < nrows (fss ! j) then Some i else Some j))"

definition base_index :: "FileStore list \<Rightarrow> nat option" where
  "base_index fss = foldl (base_step fss) None [0..<length fss]"

text \<open>
  The inner loop over the files: the key passes when every file other than the base that
  is not a claims file has it in its index.
\<close>

definition has_key :: "FileStore \<Rightarrow> string \<Rightarrow> bool" where
  "has_key f key = (case hmap_get (id_to_idx f) key of None \<Rightarrow> False | Some v \<Rightarrow> True)"

definition in_other_primaries :: "FileStore list \<Rightarrow> nat \<Rightarrow> string \<Rightarrow> bool" where
  "in_other_primaries fss base key =
     list_all (\<lambda>i. i = base \<or> is_claim (fss ! i) \<or> has_key (fss ! i) key) [0..<length fss]"

definition in_claims :: "FileStore list \<Rightarrow> string \<Rightarrow> bool" where
  "in_claims fss key =
     (if have_claims fss
      then (case hmap_get (claims_union fss) key of None \<Rightarrow> False | Some v \<Rightarrow> True)
      else True)"

definition build_eligible_ids :: "FileStore list \<Rightarrow> string list" where
  "build_eligible_ids fss =
     (case base_index fss of
        None \<Rightarrow> if have_claims fss then hmap_keys (claims_union fss) else []
      | Some base \<Rightarrow>
          filter (\<lambda>key. in_other_primaries fss base key \<and> in_claims fss key)
            (ids (fss ! base)))"

section \<open>Sampler: \<open>shuffle\<close> (merger2.c)\<close>

text \<open>
  The remainder of C's integer division, which truncates towards zero. \<open>rnd i\<close> is what
  the call of \<open>rand()\<close> in turn \<open>i\<close> of the loop returns (never negative). A divisor
  \<open>(int)(n - i)\<close> equal to zero and an index \<open>j\<close> outside the array are undefined in the
  source: the result is \<open>None\<close> then.
\<close>

definition c_rem :: "int \<Rightarrow> int \<Rightarrow> int" where
  "c_rem a b = sgn a * (\<bar>a\<bar> mod \<bar>b\<bar>)"

function shuffle_from :: "(nat \<Rightarrow> nat) \<Rightarrow> nat \<Rightarrow> string list \<Rightarrow> string list option" where
  "shuffle_from rnd i a =
     (if i < length a then
        (if int_of_size_t (length a - i) = 0 then None
         else
           (let j = i + size_t_of_int (c_rem (int (rnd i)) (int_of_size_t (length a - i)))
            in if j < length a then shuffle_from rnd (Suc i) (a[i := a ! j, j := a ! i])
               else None))
      else Some a)"
  by pat_completeness auto
termination
  by (relation "measure (\<lambda>(rnd, i, a). length a - i)") auto

declare shuffle_from.simps [simp del]

definition shuffle :: "(nat \<Rightarrow> nat) \<Rightarrow> string list \<Rightarrow> string list option" where
  "shuffle rnd a = shuffle_from rnd 0 a"

section \<open>MergeWriter: \<open>write_header\<close>, \<open>write_rows\<close> (merger2.c)\<close>

fun show_nat :: "nat \<Rightarrow> string" where
  "show_nat n =
     (if n < 10 then [char_of (48 + n)]
      else show_nat (n div 10) @ [char_of (48 + n mod 10)])"

text \<open>
  The loop over the columns of one file in \<open>write_header\<close>: \<open>c\<close> is the column's index,
  \<open>used\<close> the names written so far and \<open>out\<close> the text written so far. \<open>snprintf\<close> cuts
  \<open>namebuf\<close> to 1023 characters and \<open>dedup\<close> to 1199.
\<close>

fun header_cols ::
  "FileStore \<Rightarrow> string \<Rightarrow> nat \<Rightarrow> string list \<Rightarrow> HMap \<times> string \<Rightarrow> HMap \<times> string" where
  "header_cols f stem c [] acc = acc"
| "header_cols f stem c (col # rest) acc =
     (if c = id_col f then header_cols f stem (Suc c) rest acc
      else
        (let namebuf = (if is_claim f \<and> claim_year f > 0
                        then take 1023 (col @ ''_'' @ show_nat (claim_year f))
                        else take 1023 col);
             name = (case hmap_get (fst acc) namebuf of
                       Some v \<Rightarrow> take 1199 (namebuf @ ''['' @ stem @ '']'')
                     | None \<Rightarrow> namebuf)
         in header_cols f stem (Suc c) rest
              (hmap_put (fst acc) name 1, snd acc @ [CHR '',''] @ name)))"

definition write_header :: "FileStore list \<Rightarrow> string \<Rightarrow> string" where
  "write_header fss idName =
     snd (foldl (\<lambda>acc f. header_cols f (file_stem (path f) 256) 0 (cols f) acc)
            (hmap_put (hmap_init 4099) idName 1, idName) fss)
       @ [CHR 0x0A]"

text \<open>
  \<open>cells[row][k]\<close> as the text \<open>fputs\<close> writes: nothing for a null cell. (Outside the table
  the access is undefined in the source; the model writes nothing there.)
\<close>

definition cell_text :: "FileStore \<Rightarrow> int \<Rightarrow> nat \<Rightarrow> string" where
  "cell_text f row k =
     (if 0 \<le> row \<and> nat row < length (cells f) \<and> k < length (cells f ! nat row)
      then (case cells f ! nat row ! k of None \<Rightarrow> [] | Some t \<Rightarrow> t)
      else [])"

text \<open>What one turn of the outer loop of \<open>write_rows\<close> writes: the line of one key.\<close>

definition write_row :: "FileStore list \<Rightarrow> string \<Rightarrow> string" where
  "write_row fss key =
     key
     @ concat (map (\<lambda>f. case hmap_get (id_to_idx f) key of
                           Some row \<Rightarrow>
                             concat (map (\<lambda>k. CHR '','' # cell_text f row k) [0..<n_nonid f])
                         | None \<Rightarrow> replicate (ncols f - 1) (CHR '','')) fss)
     @ [CHR 0x0A]"

text \<open>
  \<open>write_rows\<close> writes the lines of \<open>ids[0]\<close>, ..., \<open>ids[nsel - 1]\<close>, one after the other; the
  model keeps them as a list of lines. (The caller passes \<open>nsel\<close> within the array.)
\<close>

definition write_rows :: "FileStore list \<Rightarrow> string list \<Rightarrow> nat \<Rightarrow> string list" where
  "write_rows fss keys nsel = map (write_row fss) (take nsel keys)"

section \<open>The program: \<open>main\<close> (merger2.c)\<close>

text \<open>
  The environment of a run: \<open>fs_read p\<close> is the content of the file at \<open>p\<close> when it can be
  opened for reading, \<open>fs_writable p\<close> tells whether \<open>p\<close> can be opened for writing, and
  \<open>rand_seq\<close> are the results of the calls of \<open>rand()\<close> after \<open>srand((unsigned)time(NULL))\<close>.
  \<open>atoi\<close> of the C library is a parameter of \<open>main\<close>.
\<close>

record world =
  fs_read :: "string \<Rightarrow> string option"
  fs_writable :: "string \<Rightarrow> bool"
  rand_seq :: "nat \<Rightarrow> nat"

record outfile =
  out_path :: string
  out_header :: string
  out_rows :: "string list"

text \<open>
  A run ends with an exit status, and the output file if one was written; or it runs into
  undefined behaviour.
\<close>

datatype outcome = Exit int "outfile option" | Undefined

text \<open>The loop over the options \<open>-n\<close> and \<open>-o\<close>; what is left are the input paths.\<close>

fun parse_opts ::
  "(string \<Rightarrow> int) \<Rightarrow> int \<Rightarrow> string \<Rightarrow> string list \<Rightarrow> int \<times> string \<times> string list" where
  "parse_opts atoi sample outpath (a # b # rest) =
     (if a = ''-n'' then parse_opts atoi (atoi b) outpath rest
      else if a = ''-o'' then parse_opts atoi sample b rest
      else (sample, outpath, a # b # rest))"
| "parse_opts atoi sample outpath args = (sample, outpath, args)"

text \<open>
  The loop that loads the input files in order; \<open>None\<close> when \<open>load_file\<close> exits because a
  file cannot be opened.
\<close>

fun load_all :: "world \<Rightarrow> string list \<Rightarrow> FileStore list option" where
  "load_all w [] = Some []"
| "load_all w (p # ps) =
     (case load_file (filestore_init p) (fs_read w p) of
        None \<Rightarrow> None
      | Some f \<Rightarrow>
          (case load_all w ps of
             None \<Rightarrow> None
           | Some fss \<Rightarrow> Some (f # fss)))"

definition id_name :: "FileStore list \<Rightarrow> string" where
  "id_name fss =
     (if ncols (fss ! 0) > 0 \<and> id_col (fss ! 0) < ncols (fss ! 0)
      then cols (fss ! 0) ! id_col (fss ! 0) else ''patent_id'')"

text \<open>The clamp \<open>if ((size_t)sample > eligibleIDs.n) sample = (int)eligibleIDs.n;\<close>.\<close>

definition clamp_sample :: "int \<Rightarrow> nat \<Rightarrow> int" where
  "clamp_sample sample n = (if size_t_of_int sample > n then int_of_size_t n else sample)"

definition main :: "(string \<Rightarrow> int) \<Rightarrow> world \<Rightarrow> string list \<Rightarrow> outcome" where
  "main atoi w argv =
     (if length argv < 2 then Exit 1 None
      else
        (case parse_opts atoi 100000 ''merged.csv'' (tl argv) of
           (sample, outpath, paths) \<Rightarrow>
             if length paths = 0 then Exit 1 None
             else
               (case load_all w paths of
                  None \<Rightarrow> Exit 1 None
                | Some fss \<Rightarrow>
                    (let eligible = build_eligible_ids fss in
                     if length eligible = 0 then Exit 0 None
                     else
                       (case shuffle (rand_seq w) eligible of
                          None \<Rightarrow> Undefined
                        | Some sh \<Rightarrow>
                            if \<not> fs_writable w outpath then Exit 1 None
                            else if size_t_of_int (clamp_sample sample (length eligible))
                                      > length sh then Undefined
                            else Exit 0 (Some
                                   \<lparr>out_path = outpath,
                                    out_header = write_header fss (id_name fss),
                                    out_rows = write_rows fss sh
                                      (size_t_of_int
                                         (clamp_sample sample (length eligible)))\<rparr>))))))"

section \<open>Notions used in the statements and proofs\<close>

text \<open>
  The keys of one bucket, and the well-formedness of a hash map: no key twice in a chain,
  and every key in the bucket of its hash.
\<close>

definition bucket_keys :: "HMap \<Rightarrow> nat \<Rightarrow> string set" where
  "bucket_keys m b = fst ` set (buckets m b)"

definition hmap_wf :: "HMap \<Rightarrow> bool" where
  "hmap_wf m = (\<forall>b. distinct (map fst (buckets m b)) \<and> (\<forall>k\<in>bucket_keys m b. djb2 k mod nb m = b))"

text \<open>
  The invariant of a loaded \<open>FileStore\<close>: the keys are pairwise distinct, there is
  one row of \<open>n_nonid\<close> cells per key, the index maps the key of row \<open>i\<close> to \<open>i\<close> and no
  other string, and the keys found in the buckets are the stored keys.
\<close>

definition filestore_inv :: "FileStore \<Rightarrow> bool" where
  "filestore_inv fs =
     (distinct (ids fs) \<and> length (cells fs) = length (ids fs)
      \<and> (\<forall>r\<in>set (cells fs). length r = n_nonid fs)
      \<and> (\<forall>i<length (ids fs). hmap_get (id_to_idx fs) (ids fs ! i) = Some (int i))
      \<and> (\<forall>k. k \<notin> set (ids fs) \<longrightarrow> hmap_get (id_to_idx fs) k = None)
      \<and> set (hmap_keys (id_to_idx fs)) = set (ids fs)
      \<and> 0 < nb (id_to_idx fs))"

text \<open>
  The two halves of \<open>load_line\<close>: the fields of a data line that is not skipped, and the
  merge of such a row into the store.
\<close>

definition parsed_row :: "FileStore \<Rightarrow> string \<Rightarrow> string list option" where
  "parsed_row fs buf =
     (let line = trim_eol (cstr buf) in
      if line = [] then None
      else if id_col fs \<ge> length (parse_delim_line line (delim fs)) then None
      else Some (parse_delim_line line (delim fs)))"

definition store_row :: "FileStore \<Rightarrow> string list \<Rightarrow> FileStore" where
  "store_row fs rf =
     (case filestore_get_or_create fs (rf ! id_col fs) of
        (idx, fs') \<Rightarrow>
          fs'\<lparr>cells := update_row (cells fs') idx
                          (merge_fields (id_col fs) (n_nonid fs) 0 0 rf)\<rparr>)"

text \<open>
  One turn of the loop that builds \<open>claimsUnion\<close>: the keys of a claims file are put into
  the map.
\<close>

definition union_step :: "HMap \<Rightarrow> FileStore \<Rightarrow> HMap" where
  "union_step m f = (if is_claim f then foldl (\<lambda>m' key. hmap_put m' key (- 1)) m (ids f) else m)"

text \<open>
  What the loop choosing \<open>baseIndex\<close> has established after the first \<open>n\<close> files: no file
  that is not a claims file so far, or the index of one with the fewest rows among them.
\<close>

definition base_ok :: "FileStore list \<Rightarrow> nat \<Rightarrow> nat option \<Rightarrow> bool" where
  "base_ok fss n b =
     (case b of
        None \<Rightarrow> (\<forall>i<n. is_claim (fss ! i))
      | Some j \<Rightarrow> j < n \<and> \<not> is_claim (fss ! j)
                  \<and> (\<forall>i<n. \<not> is_claim (fss ! i) \<longrightarrow> nrows (fss ! j) \<le> nrows (fss ! i)))"

text \<open>
  An environment with two input files, of keys 1, 2, 3 and 2, 3, 4.
\<close>

definition world_ab :: world where
  "world_ab =
     \<lparr>fs_read = (\<lambda>p. if p = ''a.csv'' then Some ''id,x\<newline>1,u\<newline>2,v\<newline>3,w\<newline>''
                      else if p = ''b.csv'' then Some ''id,y\<newline>2,p\<newline>3,q\<newline>4,r\<newline>''
                      else None),
      fs_writable = (\<lambda>p. True),
      rand_seq = (\<lambda>i. 0)\<rparr>"

text \<open>
  The fields of a row that the loop of \<open>load_file\<close> does not skip as the key field: those
  whose index is not \<open>id_col\<close>, in order (\<open>i\<close> is the index of the first field of the list).
  \<open>field_at idc rf k\<close> is the value a row brings to the non-key column \<open>k\<close>: its \<open>k\<close>-th such
  field, or the empty string when the row has no such field.
\<close>

fun nonkey_from :: "nat \<Rightarrow> nat \<Rightarrow> string list \<Rightarrow> string list" where
  "nonkey_from idc i [] = []"
| "nonkey_from idc i (f # rest) =
     (if i = idc then nonkey_from idc (Suc i) rest else f # nonkey_from idc (Suc i) rest)"






text \<open>
  A string without line feed, and the number of line feeds of a text. The output file is
  written line by line: a text of \<open>n\<close> lines, each ended by its line feed and without
  another one, has \<open>n\<close> line feeds.
\<close>

definition no_lf :: "string \<Rightarrow> bool" where
  "no_lf s = (CHR 0x0A \<notin> set s)"

definition count_lf :: "string \<Rightarrow> nat" where
  "count_lf s = length (filter (\<lambda>c. c = CHR 0x0A) s)"

text \<open>No key and no cell of the store holds a line feed (a null cell holds nothing).\<close>

definition store_no_lf :: "FileStore \<Rightarrow> bool" where
  "store_no_lf fs =
     ((\<forall>k\<in>set (ids fs). no_lf k)
      \<and> (\<forall>r\<in>set (cells fs). \<forall>c\<in>set r. case c of None \<Rightarrow> True | Some t \<Rightarrow> no_lf t))"

definition cell_no_lf :: "string option \<Rightarrow> bool" where
  "cell_no_lf c = (case c of None \<Rightarrow> True | Some t \<Rightarrow> no_lf t)"




section \<open>Round trip of a quoted field\<close>

lemma parse_loop_quoted:
  "parse_loop d True buf (escape_quotes s @ [CHR 0x22]) = [buf @ s]"
proof (induction s arbitrary: buf)
  case Nil
  show ?case by simp
next
  case (Cons c s)
  show ?case
  proof (cases "c = CHR 0x22")
    case True
    then show ?thesis using Cons.IH [of "buf @ [CHR 0x22]"] by simp
  next
    case False
    obtain d ds where e: "escape_quotes s @ [CHR 0x22] = d # ds"
      by (cases "escape_quotes s @ [CHR 0x22]") auto
    show ?thesis using False Cons.IH [of "buf @ [c]"] by (simp add: e)
  qed
qed

lemma parse_loop_plain:
  "\<not> list_ex (\<lambda>c. c = d \<or> c = CHR 0x22) s \<Longrightarrow>
   parse_loop d False buf s = [buf @ s]"
proof (induction s arbitrary: buf)
  case Nil
  show ?case by simp
next
  case (Cons c s)
  then have c: "c \<noteq> d" "c \<noteq> CHR 0x22" and s: "\<not> list_ex (\<lambda>c. c = d \<or> c = CHR 0x22) s"
    by auto
  show ?case
  proof (cases s)
    case Nil
    then show ?thesis using c by simp
  next
    case (Cons e es)
    then show ?thesis using c Cons.IH [OF s, of "buf @ [c]"] by simp
  qed
qed

text \<open>
  C7. Writing any string \<open>S\<close> as one field with \<open>print_csv_field\<close> (quotes around it and
  every quote doubled when \<open>S\<close> holds a comma, a quote or a line break, unchanged otherwise)
  and parsing the written text with \<open>parse_delim_line\<close> and the comma as delimiter gives
  exactly one field, equal to \<open>S\<close>.
\<close>

theorem quote_roundtrip:
  "parse_delim_line (print_csv_field (Some S)) (CHR '','') = [S]"
proof (cases "need_quotes S")
  case True
  have "parse_loop (CHR '','') False [] (CHR 0x22 # escape_quotes S @ [CHR 0x22])
        = parse_loop (CHR '','') True [] (escape_quotes S @ [CHR 0x22])"
    by (cases "escape_quotes S @ [CHR 0x22]") auto
  then show ?thesis
    using True parse_loop_quoted [of "CHR '',''" "[]" S]
    by (simp add: parse_delim_line_def print_csv_field_def)
next
  case False
  then have "\<not> list_ex (\<lambda>c. c = CHR '','' \<or> c = CHR 0x22) S"
    by (auto simp: need_quotes_def list_ex_iff)
  then show ?thesis
    using False parse_loop_plain [of "CHR '',''" S "[]"]
    by (simp add: parse_delim_line_def print_csv_field_def)
qed

section \<open>The hash map\<close>

lemma nb_hmap_put [simp]: "nb (hmap_put m k v) = nb m"
  by (simp add: hmap_put_def Let_def)

lemma map_of_chain_set:
  "map_of ch k \<noteq> None \<Longrightarrow> map_of (chain_set k v ch) k' = (if k' = k then Some v else map_of ch k')"
  by (induction ch) auto

lemma hmap_get_put:
  "hmap_get (hmap_put m k v) k' = (if k' = k then Some v else hmap_get m k')"
proof (cases "map_of (buckets m (djb2 k mod nb m)) k = None")
  case True
  then show ?thesis by (auto simp: hmap_get_def hmap_put_def Let_def)
next
  case False
  then show ?thesis
    by (auto simp: hmap_get_def hmap_put_def Let_def map_of_chain_set)
qed

lemma hmap_get_init [simp]: "hmap_get (hmap_init n) k = None"
  by (simp add: hmap_get_def hmap_init_def)

lemma keys_chain_set: "map fst (chain_set k v ch) = map fst ch"
  by (induction ch) auto

lemma set_hmap_keys: "set (hmap_keys m) = (\<Union>b\<in>{..<nb m}. bucket_keys m b)"
  by (auto simp: hmap_keys_def bucket_keys_def)

lemma bucket_keys_put:
  "bucket_keys (hmap_put m k v) b =
     (if b = djb2 k mod nb m then insert k (bucket_keys m b) else bucket_keys m b)"
proof (cases "map_of (buckets m (djb2 k mod nb m)) k = None")
  case True
  then show ?thesis by (simp add: bucket_keys_def hmap_put_def Let_def)
next
  case False
  then have "k \<in> fst ` set (buckets m (djb2 k mod nb m))"
    by (simp add: map_of_eq_None_iff)
  moreover have "fst ` set (chain_set k v c) = fst ` set c" for c
    using keys_chain_set [of k v c] by (metis set_map)
  ultimately show ?thesis using False
    by (simp add: bucket_keys_def hmap_put_def Let_def insert_absorb)
qed

lemma hmap_keys_put:
  assumes "0 < nb m"
  shows "set (hmap_keys (hmap_put m k v)) = insert k (set (hmap_keys m))"
proof -
  have h: "djb2 k mod nb m < nb m" using assms by simp
  show ?thesis
    unfolding set_hmap_keys nb_hmap_put bucket_keys_put
    using h by (auto split: if_splits)
qed

lemma hmap_wf_init: "hmap_wf (hmap_init n)"
  by (simp add: hmap_wf_def hmap_init_def bucket_keys_def)

lemma distinct_chain_put:
  "distinct (map fst (buckets m b)) \<Longrightarrow> distinct (map fst (buckets (hmap_put m k v) b))"
  by (auto simp: hmap_put_def Let_def keys_chain_set map_of_eq_None_iff)

lemma hmap_wf_put:
  assumes "hmap_wf m"
  shows "hmap_wf (hmap_put m k v)"
  unfolding hmap_wf_def
proof (intro allI conjI ballI)
  fix b
  show "distinct (map fst (buckets (hmap_put m k v) b))"
    using assms by (intro distinct_chain_put) (simp add: hmap_wf_def)
next
  fix b k' assume "k' \<in> bucket_keys (hmap_put m k v) b"
  then show "djb2 k' mod nb (hmap_put m k v) = b"
    using assms by (auto simp: bucket_keys_put hmap_wf_def split: if_splits)
qed

lemma distinct_concat_upt:
  fixes g :: "nat \<Rightarrow> 'a list"
  assumes d: "\<And>b. b < n \<Longrightarrow> distinct (g b)"
    and i: "\<And>b c x. b < n \<Longrightarrow> c < n \<Longrightarrow> b \<noteq> c \<Longrightarrow> x \<in> set (g b) \<Longrightarrow> x \<notin> set (g c)"
  shows "distinct (concat (map g [0..<n]))"
  using assms
proof (induction n)
  case 0
  show ?case by simp
next
  case (Suc n)
  have 1: "distinct (concat (map g [0..<n]))"
  proof (rule Suc.IH)
    fix b assume "b < n" then show "distinct (g b)" using Suc.prems(1) [of b] by simp
  next
    fix b c x assume "b < n" "c < n" "b \<noteq> c" "x \<in> set (g b)"
    then show "x \<notin> set (g c)" using Suc.prems(2) [of b c x] by simp
  qed
  have 2: "distinct (g n)" by (rule Suc.prems(1)) simp
  have 3: "x \<notin> set (g n)" if "b < n" "x \<in> set (g b)" for b x
    using Suc.prems(2) [of b n x] that by simp
  show ?case using 1 2 3 by auto
qed

lemma hmap_keys_distinct:
  assumes "hmap_wf m"
  shows "distinct (hmap_keys m)"
  unfolding hmap_keys_def
proof (rule distinct_concat_upt)
  fix b :: nat
  show "distinct (map fst (buckets m b))" using assms by (simp add: hmap_wf_def)
next
  fix b c :: nat and x assume "b \<noteq> c" and x: "x \<in> set (map fst (buckets m b))"
  have "djb2 x mod nb m = b" using assms x by (auto simp: hmap_wf_def bucket_keys_def)
  moreover have "djb2 x mod nb m = c" if "x \<in> set (map fst (buckets m c))"
    using assms that by (auto simp: hmap_wf_def bucket_keys_def)
  ultimately show "x \<notin> set (map fst (buckets m c))" using \<open>b \<noteq> c\<close> by blast
qed

section \<open>Ingestion keeps the invariant of the store\<close>

lemma load_line_eq:
  "load_line fs buf = (case parsed_row fs buf of None \<Rightarrow> fs | Some rf \<Rightarrow> store_row fs rf)"
  by (auto simp: load_line_def parsed_row_def store_row_def Let_def)

lemma int_of_size_t_small: "n < 2 ^ 31 \<Longrightarrow> int_of_size_t n = int n"
  by (simp add: int_of_size_t_def Let_def)

lemma merge_fields_length [simp]:
  "length (merge_fields idc nn i k rf row) = length row"
  by (induction rf arbitrary: i k row) auto

lemma nb_hmap_init [simp]: "nb (hmap_init n) = n"
  by (simp add: hmap_init_def)

lemma hmap_keys_init [simp]: "hmap_keys (hmap_init n) = []"
  by (simp add: hmap_keys_def hmap_init_def)

lemma filestore_inv_init: "filestore_inv (filestore_init p)"
  by (simp add: filestore_inv_def filestore_init_def HASH_BUCKETS_def)

lemma store_row_new:
  assumes "hmap_get (id_to_idx fs) (rf ! id_col fs) = None"
  shows "store_row fs rf =
           fs\<lparr>ids := ids fs @ [rf ! id_col fs],
              cells := update_row (cells fs @ [replicate (n_nonid fs) None])
                         (int_of_size_t (nrows fs))
                         (merge_fields (id_col fs) (n_nonid fs) 0 0 rf),
              id_to_idx := hmap_put (id_to_idx fs) (rf ! id_col fs) (int_of_size_t (nrows fs))\<rparr>"
  using assms by (simp add: store_row_def filestore_get_or_create_def filestore_add_row_def)

lemma store_row_old:
  assumes "hmap_get (id_to_idx fs) (rf ! id_col fs) = Some idx"
  shows "store_row fs rf =
           fs\<lparr>cells := update_row (cells fs) idx (merge_fields (id_col fs) (n_nonid fs) 0 0 rf)\<rparr>"
  using assms by (simp add: store_row_def filestore_get_or_create_def)

lemma store_row_frame:
  "path (store_row fs rf) = path fs \<and> delim (store_row fs rf) = delim fs
   \<and> id_col (store_row fs rf) = id_col fs \<and> is_claim (store_row fs rf) = is_claim fs
   \<and> claim_year (store_row fs rf) = claim_year fs \<and> cols (store_row fs rf) = cols fs"
  by (cases "hmap_get (id_to_idx fs) (rf ! id_col fs)") (simp_all add: store_row_new store_row_old)

lemma store_row_nrows: "nrows fs \<le> nrows (store_row fs rf)"
  by (cases "hmap_get (id_to_idx fs) (rf ! id_col fs)")
     (simp_all add: store_row_new store_row_old nrows_def)

lemma update_row_length [simp]: "length (update_row cs idx f) = length cs"
  by (simp add: update_row_def)

lemma store_row_inv:
  assumes inv: "filestore_inv fs" and b: "nrows (store_row fs rf) \<le> 2 ^ 31"
  shows "filestore_inv (store_row fs rf)"
proof (cases "hmap_get (id_to_idx fs) (rf ! id_col fs)")
  case None
  let ?K = "rf ! id_col fs"
  have new: "?K \<notin> set (ids fs)"
  proof
    assume "?K \<in> set (ids fs)"
    then obtain i where "i < length (ids fs)" "ids fs ! i = ?K" by (auto simp: in_set_conv_nth)
    then have "hmap_get (id_to_idx fs) ?K = Some (int i)" using inv by (auto simp: filestore_inv_def)
    with None show False by simp
  qed
  have n: "nrows fs < 2 ^ 31" using b by (simp add: store_row_new [OF None] nrows_def)
  have idx: "int_of_size_t (nrows fs) = int (length (ids fs))"
    using int_of_size_t_small [OF n] by (simp add: nrows_def)
  have nn: "n_nonid (store_row fs rf) = n_nonid fs"
    by (simp add: n_nonid_def ncols_def store_row_frame)
  have eq: "store_row fs rf =
           fs\<lparr>ids := ids fs @ [?K],
              cells := (cells fs @ [replicate (n_nonid fs) None])
                         [length (ids fs) := merge_fields (id_col fs) (n_nonid fs) 0 0 rf
                              (replicate (n_nonid fs) None)],
              id_to_idx := hmap_put (id_to_idx fs) ?K (int (length (ids fs)))\<rparr>"
    using inv by (simp add: store_row_new [OF None] idx update_row_def filestore_inv_def nth_append)
  have c: "\<forall>r\<in>set (cells (store_row fs rf)). length r = n_nonid fs"
    using inv by (auto simp: eq filestore_inv_def list_update_append)
  show ?thesis
    unfolding filestore_inv_def nn
  proof (intro conjI)
    show "distinct (ids (store_row fs rf))" using inv new by (simp add: eq filestore_inv_def)
    show "length (cells (store_row fs rf)) = length (ids (store_row fs rf))"
      using inv by (simp add: eq filestore_inv_def)
    show "\<forall>r\<in>set (cells (store_row fs rf)). length r = n_nonid fs" by (rule c)
    show "\<forall>i<length (ids (store_row fs rf)).
            hmap_get (id_to_idx (store_row fs rf)) (ids (store_row fs rf) ! i) = Some (int i)"
      using inv new by (auto simp: eq filestore_inv_def hmap_get_put nth_append less_Suc_eq)
    show "\<forall>k. k \<notin> set (ids (store_row fs rf)) \<longrightarrow> hmap_get (id_to_idx (store_row fs rf)) k = None"
      using inv by (auto simp: eq filestore_inv_def hmap_get_put)
    show "set (hmap_keys (id_to_idx (store_row fs rf))) = set (ids (store_row fs rf))"
      using inv by (simp add: eq filestore_inv_def hmap_keys_put)
    show "0 < nb (id_to_idx (store_row fs rf))" using inv by (simp add: eq filestore_inv_def)
  qed
next
  case (Some idx)
  have nn: "n_nonid (store_row fs rf) = n_nonid fs"
    by (simp add: n_nonid_def ncols_def store_row_frame)
  have c: "\<forall>r\<in>set (cells (store_row fs rf)). length r = n_nonid fs"
    using inv
    by (auto simp: store_row_old [OF Some] filestore_inv_def update_row_def
             dest!: set_update_subset_insert [THEN subsetD])
  show ?thesis
    unfolding filestore_inv_def nn
    using inv c by (simp add: store_row_old [OF Some] filestore_inv_def)
qed


lemma load_line_nrows: "nrows fs \<le> nrows (load_line fs l)"
  by (simp add: load_line_eq store_row_nrows split: option.split)

lemma load_line_inv:
  "filestore_inv fs \<Longrightarrow> nrows (load_line fs l) \<le> 2 ^ 31 \<Longrightarrow> filestore_inv (load_line fs l)"
  by (cases "parsed_row fs l") (simp_all add: load_line_eq store_row_inv)


lemma load_lines_nrows: "nrows fs \<le> nrows (foldl load_line fs ls)"
proof (induction ls arbitrary: fs)
  case Nil
  show ?case by simp
next
  case (Cons l ls)
  show ?case using load_line_nrows [of fs l] Cons [of "load_line fs l"] by simp
qed

lemma load_lines_inv:
  "filestore_inv fs \<Longrightarrow> nrows (foldl load_line fs ls) \<le> 2 ^ 31 \<Longrightarrow>
   filestore_inv (foldl load_line fs ls)"
proof (induction ls arbitrary: fs)
  case Nil
  then show ?case by simp
next
  case (Cons l ls)
  have "nrows (load_line fs l) \<le> 2 ^ 31"
    using load_lines_nrows [of "load_line fs l" ls] Cons.prems(2) by simp
  then have "filestore_inv (load_line fs l)" using Cons.prems(1) by (rule load_line_inv [rotated])
  then show ?case using Cons.IH [of "load_line fs l"] Cons.prems(2) by simp
qed

lemma filestore_inv_header:
  "filestore_inv fs \<Longrightarrow> cells fs = [] \<Longrightarrow>
   filestore_inv (fs\<lparr>delim := d, claim_year := y, is_claim := c, cols := h, id_col := i\<rparr>)"
  by (simp add: filestore_inv_def)

lemma load_file_inv:
  assumes "load_file (filestore_init p) content = Some fs" and "nrows fs \<le> 2 ^ 31"
  shows "filestore_inv fs"
proof (cases content)
  case None
  with assms show ?thesis by (simp add: load_file_def)
next
  case (Some data)
  show ?thesis
  proof (cases "file_lines data")
    case Nil
    with assms Some show ?thesis by (auto simp: load_file_def filestore_inv_init)
  next
    case (Cons hdr rest)
    obtain fs1 where fs1: "fs = foldl load_line fs1 rest" "filestore_inv fs1"
      using assms(1) Some Cons filestore_inv_header [OF filestore_inv_init, of p]
      by (auto simp: load_file_def Let_def filestore_init_def)
    then show ?thesis using load_lines_inv [of fs1 rest] assms(2) by simp
  qed
qed

lemma load_file_Some:
  "load_file fs (Some d) = Some (the (load_file fs (Some d)))"
  by (simp add: load_file_def Let_def split: list.split)

text \<open>The definitions unfolded to run the program on a concrete input.\<close>

lemmas run_defs =
  load_file_def filestore_init_def MAX_LINE_LEN_def Let_def trim_eol_def cstr_def is_eol_def
  parse_delim_line_def load_line_def filestore_get_or_create_def hmap_get_def hmap_put_def
  hmap_init_def filestore_add_row_def detect_id_col_def djb2_def HASH_BUCKETS_def nrows_def
  ncols_def n_nonid_def int_of_size_t_def size_t_of_int_def update_row_def
  append_cell_merge_def MERGE_SEP_def parse_claim_year_from_name_def file_stem_def
  tolower_inplace_def c_tolower_def c_isdigit_def lower_name_def has_sub_def digit_val_def

text \<open>
  C8. After \<open>load_file\<close> has read a file (into a store made by \<open>filestore_init\<close>, as \<open>main\<close>
  does), and with fewer than \<open>2 ^ 31\<close> rows stored (the range in which the \<open>int\<close> row
  indices of the source are exact): the stored keys are pairwise distinct; \<open>id_to_idx\<close>
  finds a string exactly when it is a stored key, and its buckets hold exactly the stored
  keys; and the key of row \<open>i\<close> is mapped to \<open>i\<close>, with one row of cells per key.
\<close>

theorem load_file_invariant:
  assumes "load_file (filestore_init p) content = Some fs" and "nrows fs < 2 ^ 31"
  shows "distinct (ids fs)
         \<and> (\<forall>k. (hmap_get (id_to_idx fs) k \<noteq> None) = (k \<in> set (ids fs)))
         \<and> set (hmap_keys (id_to_idx fs)) = set (ids fs)
         \<and> (\<forall>i<nrows fs. hmap_get (id_to_idx fs) (ids fs ! i) = Some (int i))
         \<and> length (cells fs) = nrows fs"
proof -
  have inv: "filestore_inv fs" using assms by (intro load_file_inv [of p content]) simp_all
  have "(hmap_get (id_to_idx fs) k \<noteq> None) = (k \<in> set (ids fs))" for k
  proof (cases "k \<in> set (ids fs)")
    case True
    then obtain i where "i < length (ids fs)" "ids fs ! i = k" by (auto simp: in_set_conv_nth)
    then have "hmap_get (id_to_idx fs) k = Some (int i)" using inv by (auto simp: filestore_inv_def)
    with True show ?thesis by simp
  next
    case False
    then show ?thesis using inv by (simp add: filestore_inv_def)
  qed
  then show ?thesis using inv by (simp add: filestore_inv_def nrows_def)
qed

theorem load_file_invariant_witness:
  "nrows (the (load_file (filestore_init ''a.csv'')
                (Some ''id,x\<newline>P1,alpha\<newline>P2,gamma\<newline>P1,beta\<newline>''))) = 2
   \<and> distinct (ids (the (load_file (filestore_init ''a.csv'')
                (Some ''id,x\<newline>P1,alpha\<newline>P2,gamma\<newline>P1,beta\<newline>''))))
   \<and> hmap_get (id_to_idx (the (load_file (filestore_init ''a.csv'')
                (Some ''id,x\<newline>P1,alpha\<newline>P2,gamma\<newline>P1,beta\<newline>'')))) ''P2'' = Some 1"
proof -
  let ?fs = "the (load_file (filestore_init ''a.csv'')
                (Some ''id,x\<newline>P1,alpha\<newline>P2,gamma\<newline>P1,beta\<newline>''))"
  have n: "nrows ?fs = 2" by (simp add: run_defs)
  have i: "ids ?fs ! 1 = ''P2''" by (simp add: run_defs)
  have "distinct (ids ?fs) \<and> hmap_get (id_to_idx ?fs) (ids ?fs ! 1) = Some (int 1)"
    using load_file_invariant [OF load_file_Some, of "''a.csv''"
            "''id,x\<newline>P1,alpha\<newline>P2,gamma\<newline>P1,beta\<newline>''"] n
    by simp
  then show ?thesis using n i by simp
qed

section \<open>EligibilitySetBuilder: the eligible keys\<close>

lemma hmap_get_puts:
  "(hmap_get (foldl (\<lambda>m' key. hmap_put m' key v) m ks) k = None)
     = (hmap_get m k = None \<and> k \<notin> set ks)"
  by (induction ks arbitrary: m) (auto simp: hmap_get_put)

lemma hmap_keys_puts:
  "0 < nb m \<Longrightarrow>
   set (hmap_keys (foldl (\<lambda>m' key. hmap_put m' key v) m ks)) = set (hmap_keys m) \<union> set ks"
  by (induction ks arbitrary: m) (auto simp: hmap_keys_put)

lemma nb_puts [simp]: "nb (foldl (\<lambda>m' key. hmap_put m' key v) m ks) = nb m"
  by (induction ks arbitrary: m) auto

lemma hmap_wf_puts:
  "hmap_wf m \<Longrightarrow> hmap_wf (foldl (\<lambda>m' key. hmap_put m' key v) m ks)"
  by (induction ks arbitrary: m) (auto simp: hmap_wf_put)

lemma claims_union_alt: "claims_union fss = foldl union_step (hmap_init HASH_BUCKETS) fss"
  by (simp add: claims_union_def union_step_def [abs_def])

lemma union_fold_nb [simp]: "nb (foldl union_step m fss) = nb m"
  by (induction fss arbitrary: m) (auto simp: union_step_def)

lemma union_fold_get:
  "(hmap_get (foldl union_step m fss) k = None)
     = (hmap_get m k = None \<and> \<not> (\<exists>f\<in>set fss. is_claim f \<and> k \<in> set (ids f)))"
  by (induction fss arbitrary: m) (auto simp: union_step_def hmap_get_puts)

lemma union_fold_keys:
  "0 < nb m \<Longrightarrow>
   set (hmap_keys (foldl union_step m fss))
     = set (hmap_keys m) \<union> (\<Union>f\<in>{f \<in> set fss. is_claim f}. set (ids f))"
proof (induction fss arbitrary: m)
  case Nil
  show ?case by simp
next
  case (Cons f fss)
  have "0 < nb (union_step m f)" using Cons.prems by (simp add: union_step_def)
  from Cons.IH [OF this] show ?case
    using Cons.prems by (auto simp: union_step_def hmap_keys_puts)
qed

lemma union_fold_wf: "hmap_wf m \<Longrightarrow> hmap_wf (foldl union_step m fss)"
  by (induction fss arbitrary: m) (auto simp: union_step_def hmap_wf_puts)

lemma claims_union_get:
  "(hmap_get (claims_union fss) k = None) = (\<not> (\<exists>f\<in>set fss. is_claim f \<and> k \<in> set (ids f)))"
  by (simp add: claims_union_alt union_fold_get)

lemma claims_union_keys:
  "set (hmap_keys (claims_union fss)) = (\<Union>f\<in>{f \<in> set fss. is_claim f}. set (ids f))"
  by (simp add: claims_union_alt union_fold_keys HASH_BUCKETS_def)

lemma claims_union_distinct: "distinct (hmap_keys (claims_union fss))"
  by (simp add: claims_union_alt hmap_keys_distinct union_fold_wf hmap_wf_init)

lemma have_claims_iff: "have_claims fss = (\<exists>f\<in>set fss. is_claim f)"
  by (simp add: have_claims_def list_ex_iff)

lemma base_step_ok:
  "base_ok fss n b \<Longrightarrow> base_ok fss (Suc n) (base_step fss b n)"
  by (auto simp: base_ok_def base_step_def less_Suc_eq split: option.splits)

lemma base_fold_ok: "base_ok fss n (foldl (base_step fss) None [0..<n])"
  by (induction n) (auto simp: base_step_ok, simp add: base_ok_def)

lemma base_index_ok: "base_ok fss (length fss) (base_index fss)"
  by (simp add: base_index_def base_fold_ok)

lemma has_key_iff: "filestore_inv f \<Longrightarrow> has_key f k = (k \<in> set (ids f))"
proof (cases "k \<in> set (ids f)")
  case True
  assume inv: "filestore_inv f"
  from True obtain i where "i < length (ids f)" "ids f ! i = k" by (auto simp: in_set_conv_nth)
  then have "hmap_get (id_to_idx f) k = Some (int i)" using inv by (auto simp: filestore_inv_def)
  with True show ?thesis by (simp add: has_key_def)
next
  case False
  assume "filestore_inv f"
  with False show ?thesis by (simp add: has_key_def filestore_inv_def)
qed

lemma in_other_primaries_iff:
  assumes "\<forall>f\<in>set fss. filestore_inv f"
  shows "in_other_primaries fss b k
         = (\<forall>i<length fss. i \<noteq> b \<and> \<not> is_claim (fss ! i) \<longrightarrow> k \<in> set (ids (fss ! i)))"
  using assms by (auto simp: in_other_primaries_def list_all_iff has_key_iff)

lemma in_claims_iff:
  "in_claims fss k = ((\<exists>f\<in>set fss. is_claim f) \<longrightarrow> (\<exists>f\<in>set fss. is_claim f \<and> k \<in> set (ids f)))"
  using claims_union_get [of fss k]
  by (auto simp: in_claims_def have_claims_iff split: option.splits)

lemma eligible_primary:
  assumes "\<forall>f\<in>set fss. filestore_inv f" and "base_index fss = Some b"
  shows "set (build_eligible_ids fss)
         = {k \<in> set (ids (fss ! b)).
              (\<forall>i<length fss. i \<noteq> b \<and> \<not> is_claim (fss ! i) \<longrightarrow> k \<in> set (ids (fss ! i)))
              \<and> ((\<exists>f\<in>set fss. is_claim f) \<longrightarrow> (\<exists>f\<in>set fss. is_claim f \<and> k \<in> set (ids f)))}"
  using assms by (simp add: build_eligible_ids_def in_other_primaries_iff in_claims_iff)

lemma eligible_claims_only:
  assumes "base_index fss = None"
  shows "set (build_eligible_ids fss) = (\<Union>f\<in>{f \<in> set fss. is_claim f}. set (ids f))"
  using assms by (auto simp: build_eligible_ids_def claims_union_keys have_claims_iff)

lemma eligible_distinct:
  assumes "\<forall>f\<in>set fss. filestore_inv f"
  shows "distinct (build_eligible_ids fss)"
proof (cases "base_index fss")
  case None
  then show ?thesis by (simp add: build_eligible_ids_def claims_union_distinct)
next
  case (Some b)
  have "b < length fss" using base_index_ok [of fss] Some by (simp add: base_ok_def)
  then have "filestore_inv (fss ! b)" using assms by simp
  then show ?thesis using Some by (simp add: build_eligible_ids_def filestore_inv_def)
qed

lemma load_all_inv:
  "load_all w paths = Some fss \<Longrightarrow> \<forall>f\<in>set fss. nrows f < 2 ^ 31 \<Longrightarrow>
   \<forall>f\<in>set fss. filestore_inv f"
proof (induction paths arbitrary: fss)
  case Nil
  then show ?case by simp
next
  case (Cons p ps)
  from Cons.prems(1) obtain f fs' where
    f: "load_file (filestore_init p) (fs_read w p) = Some f" and
    r: "load_all w ps = Some fs'" and e: "fss = f # fs'"
    by (auto split: option.splits)
  have "filestore_inv f" using f Cons.prems(2) e by (intro load_file_inv [of p "fs_read w p"]) auto
  moreover have "\<forall>g\<in>set fs'. filestore_inv g" using Cons.IH [OF r] Cons.prems(2) e by simp
  ultimately show ?case using e by simp
qed

lemma load_all_Cons:
  assumes "fs_read w p = Some d" and "load_all w ps = Some fs'"
  shows "load_all w (p # ps) = Some (the (load_file (filestore_init p) (Some d)) # fs')"
proof -
  obtain f where f: "load_file (filestore_init p) (Some d) = Some f"
    using load_file_Some [of "filestore_init p" d] by blast
  then show ?thesis using assms by simp
qed

text \<open>
  C1. For the stores of a run (every input file loaded, each with fewer than \<open>2 ^ 31\<close>
  rows), a table being Primary when \<open>load_file\<close> has not set \<open>is_claim\<close> and a Claims table
  when it has: if some table is Primary, \<open>build_eligible_ids\<close> takes as base a Primary table with
  the fewest rows, and the eligible keys are exactly the keys of the base that occur in
  every other Primary table and, when a Claims table exists, in the union of the Claims
  tables' keys. If no table is Primary, the eligible keys are the union of the Claims
  tables' keys. For two Primary tables and no Claims table the eligible keys are the
  intersection of their keys.
\<close>

theorem eligible_ids_correct:
  assumes "load_all w paths = Some fss" and "\<forall>f\<in>set fss. nrows f < 2 ^ 31"
  shows "((\<exists>f\<in>set fss. \<not> is_claim f) \<longrightarrow>
            (\<exists>b<length fss. base_index fss = Some b \<and> \<not> is_claim (fss ! b)
               \<and> (\<forall>i<length fss. \<not> is_claim (fss ! i) \<longrightarrow> nrows (fss ! b) \<le> nrows (fss ! i))
               \<and> set (build_eligible_ids fss)
                   = {k \<in> set (ids (fss ! b)).
                        (\<forall>i<length fss. i \<noteq> b \<and> \<not> is_claim (fss ! i) \<longrightarrow> k \<in> set (ids (fss ! i)))
                        \<and> ((\<exists>f\<in>set fss. is_claim f) \<longrightarrow>
                             k \<in> (\<Union>f\<in>{f \<in> set fss. is_claim f}. set (ids f)))}))
         \<and> ((\<forall>f\<in>set fss. is_claim f) \<longrightarrow>
              set (build_eligible_ids fss) = (\<Union>f\<in>set fss. set (ids f)))
         \<and> (\<forall>A B. fss = [A, B] \<and> \<not> is_claim A \<and> \<not> is_claim B \<longrightarrow>
              set (build_eligible_ids fss) = set (ids A) \<inter> set (ids B))"
proof -
  have inv: "\<forall>f\<in>set fss. filestore_inv f" using assms by (rule load_all_inv)
  have ok: "base_ok fss (length fss) (base_index fss)" by (rule base_index_ok)
  have p1: "\<exists>b<length fss. base_index fss = Some b \<and> \<not> is_claim (fss ! b)
               \<and> (\<forall>i<length fss. \<not> is_claim (fss ! i) \<longrightarrow> nrows (fss ! b) \<le> nrows (fss ! i))
               \<and> set (build_eligible_ids fss)
                   = {k \<in> set (ids (fss ! b)).
                        (\<forall>i<length fss. i \<noteq> b \<and> \<not> is_claim (fss ! i) \<longrightarrow> k \<in> set (ids (fss ! i)))
                        \<and> ((\<exists>f\<in>set fss. is_claim f) \<longrightarrow>
                             k \<in> (\<Union>f\<in>{f \<in> set fss. is_claim f}. set (ids f)))}"
    if "\<exists>f\<in>set fss. \<not> is_claim f"
  proof -
    from that obtain i where "i < length fss" "\<not> is_claim (fss ! i)"
      by (auto simp: in_set_conv_nth)
    then obtain b where b: "base_index fss = Some b"
      using ok by (cases "base_index fss") (auto simp: base_ok_def)
    have "set (build_eligible_ids fss)
          = {k \<in> set (ids (fss ! b)).
               (\<forall>i<length fss. i \<noteq> b \<and> \<not> is_claim (fss ! i) \<longrightarrow> k \<in> set (ids (fss ! i)))
               \<and> ((\<exists>f\<in>set fss. is_claim f) \<longrightarrow>
                    k \<in> (\<Union>f\<in>{f \<in> set fss. is_claim f}. set (ids f)))}"
      using eligible_primary [OF inv b] by auto
    then show ?thesis using ok b by (auto simp: base_ok_def)
  qed
  have p2: "set (build_eligible_ids fss) = (\<Union>f\<in>set fss. set (ids f))"
    if a: "\<forall>f\<in>set fss. is_claim f"
  proof -
    have "base_index fss = None"
      using ok a by (cases "base_index fss") (auto simp: base_ok_def)
    then show ?thesis using eligible_claims_only [of fss] a by auto
  qed
  have p3: "set (build_eligible_ids fss) = set (ids A) \<inter> set (ids B)"
    if "fss = [A, B] \<and> \<not> is_claim A \<and> \<not> is_claim B" for A B
  proof -
    from that have "\<exists>f\<in>set fss. \<not> is_claim f" by auto
    from p1 [OF this] obtain b where b: "b < length fss"
      "set (build_eligible_ids fss)
         = {k \<in> set (ids (fss ! b)).
              (\<forall>i<length fss. i \<noteq> b \<and> \<not> is_claim (fss ! i) \<longrightarrow> k \<in> set (ids (fss ! i)))
              \<and> ((\<exists>f\<in>set fss. is_claim f) \<longrightarrow>
                   k \<in> (\<Union>f\<in>{f \<in> set fss. is_claim f}. set (ids f)))}"
      by blast
    from b(1) that have "b = 0 \<or> b = 1" by auto
    then show ?thesis
    proof
      assume "b = 0"
      then show ?thesis using b(2) that by (auto simp: less_Suc_eq)
    next
      assume "b = 1"
      then show ?thesis using b(2) that by (auto simp: less_Suc_eq)
    qed
  qed
  show ?thesis using p1 p2 p3 by blast
qed

theorem eligible_ids_correct_witness:
  "set (build_eligible_ids (the (load_all world_ab [''a.csv'', ''b.csv''])))
     = {''2'', ''3''}"
proof -
  let ?fss = "the (load_all world_ab [''a.csv'', ''b.csv''])"
  let ?A = "the (load_file (filestore_init ''a.csv'') (Some ''id,x\<newline>1,u\<newline>2,v\<newline>3,w\<newline>''))"
  let ?B = "the (load_file (filestore_init ''b.csv'') (Some ''id,y\<newline>2,p\<newline>3,q\<newline>4,r\<newline>''))"
  have l: "load_all world_ab [''a.csv'', ''b.csv''] = Some [?A, ?B]"
    by (intro load_all_Cons) (simp_all add: world_ab_def)
  have A: "ids ?A = [''1'', ''2'', ''3'']" "\<not> is_claim ?A" by (simp_all add: run_defs)
  have B: "ids ?B = [''2'', ''3'', ''4'']" "\<not> is_claim ?B" by (simp_all add: run_defs)
  have n: "\<forall>f\<in>set [?A, ?B]. nrows f < 2 ^ 31" using A B by (simp add: nrows_def)
  have "set (build_eligible_ids [?A, ?B]) = set (ids ?A) \<inter> set (ids ?B)"
    using eligible_ids_correct [OF l n] A(2) B(2) by blast
  then show ?thesis using l A(1) B(1) by auto
qed

section \<open>Sampler and main: the shuffle and the sample size\<close>

lemma c_rem_nonneg: "0 \<le> a \<Longrightarrow> 0 < b \<Longrightarrow> c_rem a b = a mod b"
  by (cases "a = 0") (simp_all add: c_rem_def)

lemma size_t_of_int_small: "0 \<le> i \<Longrightarrow> i < 2 ^ 64 \<Longrightarrow> size_t_of_int i = nat i"
  by (simp add: size_t_of_int_def)

lemma shuffle_index:
  assumes "i < n" and "n < 2 ^ 31"
  shows "int_of_size_t (n - i) \<noteq> 0
         \<and> i + size_t_of_int (c_rem (int r) (int_of_size_t (n - i))) < n"
proof -
  have d: "int_of_size_t (n - i) = int (n - i)"
    using assms by (intro int_of_size_t_small) simp
  have m: "int r mod int (n - i) < int (n - i)" "0 \<le> int r mod int (n - i)"
    using assms by simp_all
  have "int r mod int (n - i) < 2 ^ 64"
  proof -
    have "int (n - i) < 2 ^ 31" using assms by simp
    then have "int r mod int (n - i) < 2 ^ 31" using m(1) by linarith
    also have "(2::int) ^ 31 < 2 ^ 64" by simp
    finally show ?thesis .
  qed
  then have "size_t_of_int (c_rem (int r) (int (n - i))) = nat (int r mod int (n - i))"
    using assms m by (simp add: c_rem_nonneg size_t_of_int_small)
  moreover have "nat (int r mod int (n - i)) < n - i" using m assms by linarith
  ultimately show ?thesis using d assms by simp
qed

lemma shuffle_from_perm:
  "length a < 2 ^ 31 \<Longrightarrow> \<exists>b. shuffle_from rnd i a = Some b \<and> mset b = mset a"
proof (induction rnd i a rule: shuffle_from.induct)
  case (1 rnd i a)
  show ?case
  proof (cases "i < length a")
    case False
    then show ?thesis by (subst shuffle_from.simps) simp
  next
    case True
    let ?j = "i + size_t_of_int (c_rem (int (rnd i)) (int_of_size_t (length a - i)))"
    let ?a = "a[i := a ! ?j, ?j := a ! i]"
    have j: "int_of_size_t (length a - i) \<noteq> 0" "?j < length a"
      using shuffle_index [OF True "1.prems", of "rnd i"] by simp_all
    have "\<exists>b. shuffle_from rnd (Suc i) ?a = Some b \<and> mset b = mset ?a"
      using "1.IH" [OF True j(1) refl j(2)] "1.prems" by simp
    moreover have "mset ?a = mset a" using True j(2) by (simp add: mset_swap)
    moreover have "shuffle_from rnd i a = shuffle_from rnd (Suc i) ?a"
      using True j by (subst shuffle_from.simps) (simp add: Let_def)
    ultimately show ?thesis by simp
  qed
qed

lemma shuffle_perm:
  "length a < 2 ^ 31 \<Longrightarrow> \<exists>b. shuffle rnd a = Some b \<and> mset b = mset a"
  using shuffle_from_perm [of a rnd 0] by (simp only: shuffle_def)

lemma clamp_nonneg:
  assumes "0 \<le> N" and "N < 2 ^ 31" and "M < 2 ^ 31"
  shows "size_t_of_int (clamp_sample N M) = min (nat N) M"
proof -
  have N: "size_t_of_int N = nat N"
    using assms by (intro size_t_of_int_small) simp_all
  have M: "size_t_of_int (int_of_size_t M) = M"
    using assms by (simp add: int_of_size_t_small size_t_of_int_small)
  show ?thesis using N M by (simp add: clamp_sample_def min_def)
qed

lemma clamp_negative:
  assumes "N < 0" and "- (2 ^ 31) \<le> N" and "M < 2 ^ 31"
  shows "M < size_t_of_int N \<and> clamp_sample N M = int M
         \<and> size_t_of_int (clamp_sample N M) = M"
proof -
  have "(N + 2 ^ 64) mod 2 ^ 64 = N + 2 ^ 64"
    using assms by (intro mod_pos_pos_trivial) simp_all
  then have "N mod 2 ^ 64 = N + 2 ^ 64" by simp
  then have "size_t_of_int N = nat (N + 2 ^ 64)" by (simp add: size_t_of_int_def)
  then have gt: "M < size_t_of_int N" using assms by simp
  have M: "int_of_size_t M = int M" "size_t_of_int (int M) = M"
    using assms by (simp_all add: int_of_size_t_small size_t_of_int_small)
  show ?thesis using gt M by (simp add: clamp_sample_def)
qed

lemma main_run:
  assumes "2 \<le> length argv"
    and "parse_opts atoi 100000 ''merged.csv'' (tl argv) = (N, outp, paths)"
    and "paths \<noteq> []"
    and "load_all w paths = Some fss"
    and "build_eligible_ids fss \<noteq> []"
    and "shuffle (rand_seq w) (build_eligible_ids fss) = Some sh"
    and "length sh = length (build_eligible_ids fss)"
    and "fs_writable w outp"
    and "size_t_of_int (clamp_sample N (length (build_eligible_ids fss))) = n"
    and "n \<le> length sh"
  shows "main atoi w argv =
           Exit 0 (Some \<lparr>out_path = outp, out_header = write_header fss (id_name fss),
                          out_rows = map (write_row fss) (take n sh)\<rparr>)"
  using assms by (simp add: main_def Let_def write_rows_def)

lemma eligible_two_primaries:
  assumes "filestore_inv A" and "filestore_inv B" and "\<not> is_claim A" and "\<not> is_claim B"
  shows "build_eligible_ids [A, B]
         = (if nrows B < nrows A then filter (\<lambda>k. k \<in> set (ids A)) (ids B)
            else filter (\<lambda>k. k \<in> set (ids B)) (ids A))"
proof -
  have b: "base_index [A, B] = (if nrows B < nrows A then Some 1 else Some 0)"
    using assms(3,4) by (simp add: base_index_def base_step_def upt_rec [of 0] upt_rec [of 1])
  have c: "in_claims [A, B] k" for k
    using assms(3,4) by (simp add: in_claims_def have_claims_def)
  have o0: "in_other_primaries [A, B] 0 k = (k \<in> set (ids B))" for k
    using assms by (simp add: in_other_primaries_def upt_rec [of 0] upt_rec [of 1] has_key_iff)
  have o1: "in_other_primaries [A, B] (Suc 0) k = (k \<in> set (ids A))" for k
    using assms by (simp add: in_other_primaries_def upt_rec [of 0] upt_rec [of 1] has_key_iff)
  show ?thesis by (simp add: build_eligible_ids_def b c o0 o1)
qed

lemma world_ab_stores:
  "load_all world_ab [''a.csv'', ''b.csv'']
     = Some [the (load_file (filestore_init ''a.csv'') (Some ''id,x\<newline>1,u\<newline>2,v\<newline>3,w\<newline>'')),
             the (load_file (filestore_init ''b.csv'') (Some ''id,y\<newline>2,p\<newline>3,q\<newline>4,r\<newline>''))]"
  by (intro load_all_Cons) (simp_all add: world_ab_def)

lemma world_ab_a:
  "ids (the (load_file (filestore_init ''a.csv'') (Some ''id,x\<newline>1,u\<newline>2,v\<newline>3,w\<newline>'')))
     = [''1'', ''2'', ''3'']
   \<and> \<not> is_claim (the (load_file (filestore_init ''a.csv'') (Some ''id,x\<newline>1,u\<newline>2,v\<newline>3,w\<newline>'')))"
  by (simp add: run_defs)

lemma world_ab_b:
  "ids (the (load_file (filestore_init ''b.csv'') (Some ''id,y\<newline>2,p\<newline>3,q\<newline>4,r\<newline>'')))
     = [''2'', ''3'', ''4'']
   \<and> \<not> is_claim (the (load_file (filestore_init ''b.csv'') (Some ''id,y\<newline>2,p\<newline>3,q\<newline>4,r\<newline>'')))"
  by (simp add: run_defs)

lemma world_ab_nrows:
  "\<forall>f\<in>set [the (load_file (filestore_init ''a.csv'') (Some ''id,x\<newline>1,u\<newline>2,v\<newline>3,w\<newline>'')),
             the (load_file (filestore_init ''b.csv'') (Some ''id,y\<newline>2,p\<newline>3,q\<newline>4,r\<newline>''))].
     nrows f < 2 ^ 31"
  by (simp add: nrows_def world_ab_a world_ab_b)

lemma world_ab_eligible:
  "build_eligible_ids
     [the (load_file (filestore_init ''a.csv'') (Some ''id,x\<newline>1,u\<newline>2,v\<newline>3,w\<newline>'')),
      the (load_file (filestore_init ''b.csv'') (Some ''id,y\<newline>2,p\<newline>3,q\<newline>4,r\<newline>''))]
   = [''2'', ''3'']"
proof -
  let ?A = "the (load_file (filestore_init ''a.csv'') (Some ''id,x\<newline>1,u\<newline>2,v\<newline>3,w\<newline>''))"
  let ?B = "the (load_file (filestore_init ''b.csv'') (Some ''id,y\<newline>2,p\<newline>3,q\<newline>4,r\<newline>''))"
  have "filestore_inv ?A" "filestore_inv ?B"
    using world_ab_nrows load_all_inv [OF world_ab_stores] by simp_all
  then have "build_eligible_ids [?A, ?B]
         = (if nrows ?B < nrows ?A then filter (\<lambda>k. k \<in> set (ids ?A)) (ids ?B)
            else filter (\<lambda>k. k \<in> set (ids ?B)) (ids ?A))"
    using world_ab_a world_ab_b by (intro eligible_two_primaries) simp_all
  then show ?thesis by (simp add: nrows_def world_ab_a world_ab_b)
qed

section \<open>FileTable ingestion: rows of the same key are merged\<close>

lemma nonkey_from_eq:
  "nonkey_from idc i rf = (if i \<le> idc then take (idc - i) rf @ drop (Suc (idc - i)) rf else rf)"
proof (induction rf arbitrary: i)
  case Nil
  show ?case by simp
next
  case (Cons f rest)
  show ?case
  proof (cases "i = idc")
    case True
    then show ?thesis by (simp add: Cons.IH)
  next
    case False
    then show ?thesis by (cases "i < idc") (auto simp: Cons.IH Suc_diff_Suc take_Cons')
  qed
qed

















section \<open>MergeWriter and main: the rows written are lines\<close>

text \<open>
  \<open>fgets\<close> ends a line at its line feed and \<open>trim_eol\<close> removes it, so no field that
  \<open>load_file\<close> stores holds a line feed: every key and every cell of a loaded store is
  free of line feeds, and so are the eligible keys. The line that \<open>write_rows\<close> writes for
  such a key is the key, the cells after it, and the line feed that ends it.
\<close>

lemma fgets_split_lf: "no_lf (butlast (fst (fgets_split n s)))"
proof (induction s arbitrary: n)
  case Nil
  show ?case by (simp add: no_lf_def)
next
  case (Cons c cs)
  show ?case
  proof (cases "n = 0 \<or> c = CHR 0x0A")
    case True
    then show ?thesis by (auto simp: no_lf_def)
  next
    case False
    obtain l r where lr: "fgets_split (n - 1) cs = (l, r)" by (cases "fgets_split (n - 1) cs")
    have "no_lf (butlast l)" using Cons [of "n - 1"] lr by simp
    then show ?thesis using False lr by (cases l) (auto simp: no_lf_def)
  qed
qed

lemma file_lines_lf: "b \<in> set (file_lines s) \<Longrightarrow> no_lf (butlast b)"
proof (induction s rule: file_lines.induct)
  case 1
  then show ?case by simp
next
  case (2 c cs)
  from "2.prems" have "b = fst (fgets_split (MAX_LINE_LEN - 1) (c # cs))
      \<or> b \<in> set (file_lines (snd (fgets_split (MAX_LINE_LEN - 1) (c # cs))))"
    by (simp only: file_lines.simps set_simps insert_iff)
  then show ?case
  proof
    assume "b = fst (fgets_split (MAX_LINE_LEN - 1) (c # cs))"
    then show ?thesis by (simp only: fgets_split_lf)
  next
    assume "b \<in> set (file_lines (snd (fgets_split (MAX_LINE_LEN - 1) (c # cs))))"
    then show ?thesis by (rule "2.IH")
  qed
qed

lemma butlast_takeWhile_subset: "set (butlast (takeWhile P xs)) \<subseteq> set (butlast xs)"
proof (induction xs)
  case Nil
  show ?case by simp
next
  case (Cons x xs)
  show ?case
  proof (cases "P x")
    case False
    then show ?thesis by simp
  next
    case True
    show ?thesis
    proof (cases "takeWhile P xs = []")
      case e: True
      then show ?thesis using True by simp
    next
      case ne: False
      then have "xs \<noteq> []" by auto
      then show ?thesis using True ne Cons by auto
    qed
  qed
qed

lemma cstr_lf: "no_lf (butlast b) \<Longrightarrow> no_lf (butlast (cstr b))"
  using butlast_takeWhile_subset [of "\<lambda>c. c \<noteq> CHR 0x00" b] by (auto simp: no_lf_def cstr_def)

lemma trim_eol_lf: "no_lf (butlast x) \<Longrightarrow> no_lf (trim_eol x)"
proof (cases x rule: rev_cases)
  case Nil
  then show ?thesis by (simp add: trim_eol_def no_lf_def)
next
  case (snoc ys y)
  assume "no_lf (butlast x)"
  then have ys: "CHR 0x0A \<notin> set ys" using snoc by (simp add: no_lf_def)
  have "set (dropWhile is_eol (rev ys)) \<subseteq> set ys" using set_dropWhileD by fastforce
  then show ?thesis using ys snoc
    by (cases "is_eol y") (auto simp: trim_eol_def no_lf_def is_eol_def)
qed

lemma parse_loop_chars:
  "f \<in> set (parse_loop d q buf s) \<Longrightarrow> set f \<subseteq> set buf \<union> set s \<union> {CHR 0x22}"
proof (induction d q buf s arbitrary: f rule: parse_loop.induct)
  case (1 d q buf)
  then show ?case by auto
next
  case (2 d q buf c)
  show ?case
  proof (cases q)
    case True
    then show ?thesis using "2.prems" by (cases "c = CHR 0x22") auto
  next
    case False
    show ?thesis
    proof (cases "c = CHR 0x22")
      case True
      then show ?thesis using "2.prems" False by auto
    next
      case nq: False
      then show ?thesis using "2.prems" False by (cases "c = d") auto
    qed
  qed
next
  case (3 d q buf c c' cs)
  show ?case
  proof (cases q)
    case True
    show ?thesis
    proof (cases "c = CHR 0x22")
      case q: True
      show ?thesis
      proof (cases "c' = CHR 0x22")
        case True
        then show ?thesis using "3.IH"(1) [of f] "3.prems" \<open>q\<close> q by auto
      next
        case False
        then show ?thesis using "3.IH"(2) [of f] "3.prems" \<open>q\<close> q by auto
      qed
    next
      case False
      then show ?thesis using "3.IH"(3) [of f] "3.prems" True by auto
    qed
  next
    case nq: False
    show ?thesis
    proof (cases "c = CHR 0x22")
      case True
      then show ?thesis using "3.IH"(4) [of f] "3.prems" nq by auto
    next
      case False
      show ?thesis
      proof (cases "c = d")
        case True
        then show ?thesis using "3.IH"(5) [of f] "3.prems" nq False by auto
      next
        case ne: False
        then show ?thesis using "3.IH"(6) [of f] "3.prems" nq False by auto
      qed
    qed
  qed
qed

lemma parsed_row_lf:
  assumes "no_lf (butlast b)" and "parsed_row fs b = Some rf" and "f \<in> set rf"
  shows "no_lf f"
proof -
  have l: "no_lf (trim_eol (cstr b))" using assms(1) by (intro trim_eol_lf cstr_lf)
  have "rf = parse_loop (delim fs) False [] (trim_eol (cstr b))"
    using assms(2) by (simp add: parsed_row_def Let_def parse_delim_line_def split: if_splits)
  then have "set f \<subseteq> set (trim_eol (cstr b)) \<union> {CHR 0x22}"
    using parse_loop_chars [of f "delim fs" False "[]" "trim_eol (cstr b)"] assms(3) by simp
  then show ?thesis using l by (auto simp: no_lf_def)
qed

lemma parsed_row_key:
  "parsed_row fs b = Some rf \<Longrightarrow> id_col fs < length rf"
  by (simp add: parsed_row_def Let_def split: if_splits)

lemma store_no_lf_alt:
  "store_no_lf fs = ((\<forall>k\<in>set (ids fs). no_lf k) \<and> (\<forall>r\<in>set (cells fs). \<forall>c\<in>set r. cell_no_lf c))"
  by (simp add: store_no_lf_def cell_no_lf_def)

lemma append_cell_merge_lf:
  "cell_no_lf dst \<Longrightarrow> no_lf src \<Longrightarrow> cell_no_lf (append_cell_merge dst src)"
  by (auto simp: cell_no_lf_def append_cell_merge_def no_lf_def MERGE_SEP_def split: option.splits)

lemma merge_fields_lf:
  "\<forall>c\<in>set row. cell_no_lf c \<Longrightarrow> \<forall>f\<in>set rf. no_lf f \<Longrightarrow>
   \<forall>c\<in>set (merge_fields idc nn i k rf row). cell_no_lf c"
proof (induction rf arbitrary: i k row)
  case Nil
  then show ?case by simp
next
  case (Cons f rest)
  have r: "\<forall>g\<in>set rest. no_lf g" and f: "no_lf f" using Cons.prems(2) by simp_all
  show ?case
  proof (cases "i = idc")
    case True
    then show ?thesis using Cons.IH [OF Cons.prems(1) r, of "Suc i" k] by simp
  next
    case False
    let ?row = "if k < nn then row[k := append_cell_merge (row ! k) f] else row"
    have "\<forall>c\<in>set ?row. cell_no_lf c"
    proof (cases "k < nn \<and> k < length row")
      case True
      then have "cell_no_lf (append_cell_merge (row ! k) f)"
        using Cons.prems(1) f by (intro append_cell_merge_lf) simp_all
      then show ?thesis
        using Cons.prems(1) set_update_subset_insert [of row k "append_cell_merge (row ! k) f"]
        by auto
    next
      case False
      then show ?thesis using Cons.prems(1) by (auto simp: list_update_beyond not_less)
    qed
    then show ?thesis using Cons.IH [OF _ r, of ?row "Suc i" "Suc k"] False by simp
  qed
qed

lemma update_row_all:
  assumes "\<forall>r\<in>set cs. P r" and "\<And>r. P r \<Longrightarrow> P (g r)"
  shows "\<forall>r\<in>set (update_row cs idx g). P r"
proof (cases "0 \<le> idx \<and> nat idx < length cs")
  case True
  then have "P (g (cs ! nat idx))" using assms by simp
  then show ?thesis
    using True assms(1) set_update_subset_insert [of cs "nat idx" "g (cs ! nat idx)"]
    by (auto simp: update_row_def)
next
  case False
  then show ?thesis using assms(1) by (auto simp: update_row_def)
qed

lemma store_row_lf:
  assumes s: "store_no_lf fs" and rf: "\<forall>f\<in>set rf. no_lf f" and k: "id_col fs < length rf"
  shows "store_no_lf (store_row fs rf)"
proof -
  let ?m = "merge_fields (id_col fs) (n_nonid fs) 0 0 rf"
  have m: "\<forall>c\<in>set (?m r). cell_no_lf c" if "\<forall>c\<in>set r. cell_no_lf c" for r
    using that rf by (rule merge_fields_lf)
  have key: "no_lf (rf ! id_col fs)" using rf k by simp
  show ?thesis
  proof (cases "hmap_get (id_to_idx fs) (rf ! id_col fs)")
    case None
    have "\<forall>r\<in>set (cells fs @ [replicate (n_nonid fs) None]). \<forall>c\<in>set r. cell_no_lf c"
      using s by (auto simp: store_no_lf_alt cell_no_lf_def)
    then have "\<forall>r\<in>set (update_row (cells fs @ [replicate (n_nonid fs) None])
                   (int_of_size_t (nrows fs)) ?m). \<forall>c\<in>set r. cell_no_lf c"
      using m by (rule update_row_all)
    then show ?thesis using s key by (simp add: store_row_new [OF None] store_no_lf_alt)
  next
    case (Some idx)
    have "\<forall>r\<in>set (cells fs). \<forall>c\<in>set r. cell_no_lf c" using s by (simp add: store_no_lf_alt)
    then have "\<forall>r\<in>set (update_row (cells fs) idx ?m). \<forall>c\<in>set r. cell_no_lf c"
      using m by (rule update_row_all)
    then show ?thesis using s by (simp add: store_row_old [OF Some] store_no_lf_alt)
  qed
qed

lemma load_line_lf:
  assumes "store_no_lf fs" and "no_lf (butlast b)"
  shows "store_no_lf (load_line fs b)"
proof (cases "parsed_row fs b")
  case None
  then show ?thesis using assms(1) by (simp add: load_line_eq [of fs b])
next
  case (Some rf)
  have "\<forall>f\<in>set rf. no_lf f" using parsed_row_lf [OF assms(2) Some] by blast
  then have "store_no_lf (store_row fs rf)"
    using assms(1) parsed_row_key [OF Some] by (intro store_row_lf)
  then show ?thesis using Some by (simp add: load_line_eq [of fs b])
qed

lemma load_lines_lf:
  "store_no_lf fs \<Longrightarrow> \<forall>b\<in>set bufs. no_lf (butlast b) \<Longrightarrow>
   store_no_lf (foldl load_line fs bufs)"
proof (induction bufs arbitrary: fs)
  case Nil
  then show ?case by simp
next
  case (Cons b bufs)
  have "store_no_lf (load_line fs b)" using Cons.prems by (intro load_line_lf) simp_all
  then show ?case using Cons.IH [of "load_line fs b"] Cons.prems(2) by simp
qed

lemma load_file_lf:
  assumes "load_file (filestore_init p) content = Some fs"
  shows "store_no_lf fs"
proof (cases content)
  case None
  with assms show ?thesis by (simp add: load_file_def)
next
  case (Some data)
  show ?thesis
  proof (cases "file_lines data")
    case Nil
    with assms Some show ?thesis
      by (auto simp: load_file_def filestore_init_def store_no_lf_def)
  next
    case (Cons hdr rest)
    obtain fs1 where fs1: "fs = foldl load_line fs1 rest" "store_no_lf fs1"
      using assms Some Cons
      by (auto simp: load_file_def Let_def filestore_init_def store_no_lf_def)
    have "\<forall>b\<in>set rest. no_lf (butlast b)"
      using file_lines_lf [of _ data] Cons by simp
    then show ?thesis using fs1 by (simp add: load_lines_lf)
  qed
qed

lemma load_all_lf:
  "load_all w paths = Some fss \<Longrightarrow> \<forall>f\<in>set fss. store_no_lf f"
proof (induction paths arbitrary: fss)
  case Nil
  then show ?case by simp
next
  case (Cons p ps)
  from Cons.prems obtain f fs' where
    f: "load_file (filestore_init p) (fs_read w p) = Some f" and
    r: "load_all w ps = Some fs'" and e: "fss = f # fs'"
    by (auto split: option.splits)
  show ?case using load_file_lf [OF f] Cons.IH [OF r] e by simp
qed

lemma eligible_subset:
  "set (build_eligible_ids fss) \<subseteq> (\<Union>f\<in>set fss. set (ids f))"
proof (cases "base_index fss")
  case None
  then show ?thesis using eligible_claims_only [OF None] by auto
next
  case (Some b)
  have "b < length fss" using base_index_ok [of fss] Some by (simp add: base_ok_def)
  then have "fss ! b \<in> set fss" by simp
  then show ?thesis using Some by (auto simp: build_eligible_ids_def)
qed

lemma eligible_lf:
  assumes "\<forall>f\<in>set fss. store_no_lf f" and "key \<in> set (build_eligible_ids fss)"
  shows "no_lf key"
  using assms eligible_subset [of fss] by (auto simp: store_no_lf_def)

lemma cell_text_lf:
  assumes s: "store_no_lf f"
  shows "no_lf (cell_text f row k)"
proof -
  have "no_lf t" if "0 \<le> row" "nat row < length (cells f)" "k < length (cells f ! nat row)"
    "cells f ! nat row ! k = Some t" for t
  proof -
    have "cells f ! nat row \<in> set (cells f)" using that(2) by simp
    moreover have "Some t \<in> set (cells f ! nat row)" using that(3,4) by (metis nth_mem)
    ultimately have "cell_no_lf (Some t)" using s unfolding store_no_lf_alt by blast
    then show ?thesis by (simp add: cell_no_lf_def)
  qed
  moreover have "no_lf []" by (simp add: no_lf_def)
  ultimately show ?thesis by (simp add: cell_text_def split: option.split)
qed

lemma write_row_line:
  assumes "\<forall>f\<in>set fss. store_no_lf f" and "no_lf key"
  shows "\<exists>rest. write_row fss key = key @ rest @ [CHR 0x0A] \<and> no_lf (key @ rest)"
proof -
  let ?part = "\<lambda>f. case hmap_get (id_to_idx f) key of
                  Some row \<Rightarrow> concat (map (\<lambda>k. CHR '','' # cell_text f row k) [0..<n_nonid f])
                | None \<Rightarrow> replicate (ncols f - 1) (CHR '','')"
  have p: "no_lf (?part f)" if "f \<in> set fss" for f
  proof (cases "hmap_get (id_to_idx f) key")
    case None
    then show ?thesis by (simp add: no_lf_def)
  next
    case (Some row)
    have "store_no_lf f" using assms(1) that by simp
    then have "CHR 0x0A \<notin> set (cell_text f row k)" for k
      using cell_text_lf [of f row k] by (simp add: no_lf_def)
    then show ?thesis using Some by (auto simp: no_lf_def)
  qed
  have "no_lf (concat (map ?part fss))" using p by (auto simp: no_lf_def)
  then have "no_lf (key @ concat (map ?part fss))" using assms(2) by (simp add: no_lf_def)
  moreover have "write_row fss key = key @ concat (map ?part fss) @ [CHR 0x0A]"
    by (simp add: write_row_def)
  ultimately show ?thesis by blast
qed

lemma count_lf_line: "no_lf body \<Longrightarrow> count_lf (body @ [CHR 0x0A]) = 1"
  by (auto simp: count_lf_def no_lf_def filter_empty_conv)

lemma count_lf_rows:
  "\<forall>key\<in>set keys. count_lf (g key) = 1 \<Longrightarrow> count_lf (concat (map g keys)) = length keys"
  by (induction keys) (simp_all add: count_lf_def)

lemma written_rows_lines:
  assumes "\<forall>f\<in>set fss. store_no_lf f" and "set keys \<subseteq> set (build_eligible_ids fss)"
  shows "(\<forall>key\<in>set keys. \<exists>rest. write_row fss key = key @ rest @ [CHR 0x0A] \<and> no_lf (key @ rest))
         \<and> count_lf (concat (map (write_row fss) keys)) = length keys"
proof -
  have l: "\<exists>rest. write_row fss key = key @ rest @ [CHR 0x0A] \<and> no_lf (key @ rest)"
    if "key \<in> set keys" for key
    using assms that eligible_lf [OF assms(1), of key] by (intro write_row_line) auto
  have "count_lf (write_row fss key) = 1" if k: "key \<in> set keys" for key
  proof -
    obtain rest where "write_row fss key = key @ rest @ [CHR 0x0A]" "no_lf (key @ rest)"
      using l [OF k] by blast
    then show ?thesis using count_lf_line [of "key @ rest"] by simp
  qed
  then have "count_lf (concat (map (write_row fss) keys)) = length keys"
    by (intro count_lf_rows) simp
  then show ?thesis using l by blast
qed

lemma selected_rows_written:
  assumes "2 \<le> length argv"
    and "parse_opts atoi 100000 ''merged.csv'' (tl argv) = (N, outp, paths)"
    and "paths \<noteq> []"
    and "load_all w paths = Some fss"
    and "build_eligible_ids fss \<noteq> []"
    and "length (build_eligible_ids fss) < 2 ^ 31"
    and "fs_writable w outp"
    and "size_t_of_int (clamp_sample N (length (build_eligible_ids fss))) = n"
    and "n \<le> length (build_eligible_ids fss)"
  shows "\<exists>sh. shuffle (rand_seq w) (build_eligible_ids fss) = Some sh
            \<and> mset sh = mset (build_eligible_ids fss)
            \<and> main atoi w argv =
                Exit 0 (Some \<lparr>out_path = outp, out_header = write_header fss (id_name fss),
                               out_rows = map (write_row fss) (take n sh)\<rparr>)
            \<and> length (map (write_row fss) (take n sh)) = n
            \<and> (\<forall>key\<in>set (take n sh).
                  \<exists>rest. write_row fss key = key @ rest @ [CHR 0x0A] \<and> no_lf (key @ rest))
            \<and> count_lf (concat (map (write_row fss) (take n sh))) = n"
proof -
  let ?el = "build_eligible_ids fss"
  obtain sh where sh: "shuffle (rand_seq w) ?el = Some sh" "mset sh = mset ?el"
    using shuffle_perm [OF assms(6)] by blast
  have len: "length sh = length ?el" using sh(2) by (rule mset_eq_length)
  have n: "n \<le> length sh" using assms(9) len by simp
  have m: "main atoi w argv =
          Exit 0 (Some \<lparr>out_path = outp, out_header = write_header fss (id_name fss),
                         out_rows = map (write_row fss) (take n sh)\<rparr>)"
    using assms(1-5) sh(1) len assms(7,8) n by (rule main_run)
  have "set sh = set ?el" using sh(2) by (rule mset_eq_setD)
  then have sub: "set (take n sh) \<subseteq> set ?el" using set_take_subset [of n sh] by simp
  have l: "(\<forall>key\<in>set (take n sh).
              \<exists>rest. write_row fss key = key @ rest @ [CHR 0x0A] \<and> no_lf (key @ rest))
           \<and> count_lf (concat (map (write_row fss) (take n sh))) = length (take n sh)"
    using load_all_lf [OF assms(4)] sub by (rule written_rows_lines)
  have t: "length (take n sh) = n" using n by simp
  show ?thesis
  proof (intro exI [of _ sh] conjI)
    show "shuffle (rand_seq w) ?el = Some sh" by (rule sh(1))
    show "mset sh = mset ?el" by (rule sh(2))
    show "main atoi w argv =
          Exit 0 (Some \<lparr>out_path = outp, out_header = write_header fss (id_name fss),
                         out_rows = map (write_row fss) (take n sh)\<rparr>)" by (rule m)
    show "length (map (write_row fss) (take n sh)) = n" using t by simp
    show "\<forall>key\<in>set (take n sh).
            \<exists>rest. write_row fss key = key @ rest @ [CHR 0x0A] \<and> no_lf (key @ rest)"
      using l by blast
    show "count_lf (concat (map (write_row fss) (take n sh))) = n" using l t by simp
  qed
qed

text \<open>
  The rows written for a sample size \<open>N \<ge> 0\<close>: one line for each of the first \<open>min N M\<close>
  keys of the shuffled eligible list. The keys selected are pairwise distinct, and are
  the whole shuffled list when \<open>N \<ge> M\<close>.
\<close>

lemma sample_rows_written:
  assumes "2 \<le> length argv"
    and "parse_opts atoi 100000 ''merged.csv'' (tl argv) = (N, outp, paths)"
    and "paths \<noteq> []"
    and "load_all w paths = Some fss"
    and "\<forall>f\<in>set fss. nrows f < 2 ^ 31"
    and "0 \<le> N" and "N < 2 ^ 31"
    and "build_eligible_ids fss \<noteq> []"
    and "length (build_eligible_ids fss) < 2 ^ 31"
    and "fs_writable w outp"
  shows "\<exists>sh. shuffle (rand_seq w) (build_eligible_ids fss) = Some sh
            \<and> mset sh = mset (build_eligible_ids fss)
            \<and> main atoi w argv =
                Exit 0 (Some \<lparr>out_path = outp, out_header = write_header fss (id_name fss),
                   out_rows = map (write_row fss)
                     (take (min (nat N) (length (build_eligible_ids fss))) sh)\<rparr>)
            \<and> length (map (write_row fss)
                        (take (min (nat N) (length (build_eligible_ids fss))) sh))
                = min (nat N) (length (build_eligible_ids fss))
            \<and> count_lf (concat (map (write_row fss)
                                  (take (min (nat N) (length (build_eligible_ids fss))) sh)))
                = min (nat N) (length (build_eligible_ids fss))
            \<and> distinct (take (min (nat N) (length (build_eligible_ids fss))) sh)
            \<and> (length (build_eligible_ids fss) \<le> nat N \<longrightarrow>
                 take (min (nat N) (length (build_eligible_ids fss))) sh = sh)"
proof -
  let ?el = "build_eligible_ids fss"
  let ?n = "min (nat N) (length ?el)"
  have c: "size_t_of_int (clamp_sample N (length ?el)) = ?n"
    using assms(6,7,9) by (rule clamp_nonneg)
  have n: "?n \<le> length ?el" by simp
  obtain sh where sh: "shuffle (rand_seq w) ?el = Some sh" "mset sh = mset ?el"
    and m: "main atoi w argv =
          Exit 0 (Some \<lparr>out_path = outp, out_header = write_header fss (id_name fss),
                         out_rows = map (write_row fss) (take ?n sh)\<rparr>)"
    and r: "length (map (write_row fss) (take ?n sh)) = ?n"
      "count_lf (concat (map (write_row fss) (take ?n sh))) = ?n"
    using selected_rows_written [OF assms(1-4,8-10) c n] by blast
  have len: "length sh = length ?el" using sh(2) by (rule mset_eq_length)
  have "distinct ?el" using load_all_inv [OF assms(4,5)] by (rule eligible_distinct)
  then have "distinct sh" using mset_eq_imp_distinct_iff [OF sh(2)] by blast
  then have d: "distinct (take ?n sh)" by simp
  have a: "length ?el \<le> nat N \<longrightarrow> take ?n sh = sh" by (simp add: len min_def)
  show ?thesis using sh m r d a by (intro exI [of _ sh]) blast
qed

text \<open>
  C10. A run of \<open>main\<close> with a negative requested sample size \<open>N\<close> (an \<open>int\<close>), every input
  file loaded, a non-empty eligible list of \<open>M < 2 ^ 31\<close> keys and an output path that can
  be opened: \<open>(size_t) N\<close> exceeds \<open>M\<close>, the clamp sets the sample size to \<open>M\<close>, and the run
  exits with status 0 and has written the rows of all the keys of the shuffled eligible
  list, a permutation of the eligible list. These are \<open>M\<close> data rows: the row of a key is
  one line, the key followed by the rest of the line and the line feed that ends it, with
  no other line feed in it, and the rows written hold \<open>M\<close> line feeds together.
\<close>

theorem negative_sample_selects_all:
  assumes "2 \<le> length argv"
    and "parse_opts atoi 100000 ''merged.csv'' (tl argv) = (N, outp, paths)"
    and "paths \<noteq> []"
    and "load_all w paths = Some fss"
    and "N < 0" and "- (2 ^ 31) \<le> N"
    and "build_eligible_ids fss \<noteq> []"
    and "length (build_eligible_ids fss) < 2 ^ 31"
    and "fs_writable w outp"
  shows "length (build_eligible_ids fss) < size_t_of_int N
         \<and> clamp_sample N (length (build_eligible_ids fss)) = int (length (build_eligible_ids fss))
         \<and> (\<exists>sh. shuffle (rand_seq w) (build_eligible_ids fss) = Some sh
              \<and> mset sh = mset (build_eligible_ids fss)
              \<and> main atoi w argv =
                  Exit 0 (Some \<lparr>out_path = outp, out_header = write_header fss (id_name fss),
                                 out_rows = map (write_row fss) sh\<rparr>)
              \<and> length (map (write_row fss) sh) = length (build_eligible_ids fss)
              \<and> (\<forall>key\<in>set sh.
                    \<exists>rest. write_row fss key = key @ rest @ [CHR 0x0A] \<and> no_lf (key @ rest))
              \<and> count_lf (concat (map (write_row fss) sh)) = length (build_eligible_ids fss))"
proof -
  let ?el = "build_eligible_ids fss"
  have c: "length ?el < size_t_of_int N" "clamp_sample N (length ?el) = int (length ?el)"
    "size_t_of_int (clamp_sample N (length ?el)) = length ?el"
    using clamp_negative [OF assms(5,6,8)] by blast+
  obtain sh where sh: "shuffle (rand_seq w) ?el = Some sh" "mset sh = mset ?el"
    and m: "main atoi w argv =
          Exit 0 (Some \<lparr>out_path = outp, out_header = write_header fss (id_name fss),
                         out_rows = map (write_row fss) (take (length ?el) sh)\<rparr>)"
    and r: "\<forall>key\<in>set (take (length ?el) sh).
              \<exists>rest. write_row fss key = key @ rest @ [CHR 0x0A] \<and> no_lf (key @ rest)"
      "count_lf (concat (map (write_row fss) (take (length ?el) sh))) = length ?el"
    using selected_rows_written [OF assms(1-4,7-9) c(3)] by auto
  have len: "length sh = length ?el" using sh(2) by (rule mset_eq_length)
  have t: "take (length ?el) sh = sh" by (simp add: len)
  show ?thesis
  proof (intro conjI exI [of _ sh])
    show "length ?el < size_t_of_int N" by (rule c(1))
    show "clamp_sample N (length ?el) = int (length ?el)" by (rule c(2))
    show "shuffle (rand_seq w) ?el = Some sh" by (rule sh(1))
    show "mset sh = mset ?el" by (rule sh(2))
    show "main atoi w argv =
          Exit 0 (Some \<lparr>out_path = outp, out_header = write_header fss (id_name fss),
                         out_rows = map (write_row fss) sh\<rparr>)" using m t by simp
    show "length (map (write_row fss) sh) = length ?el" by (simp add: len)
    show "\<forall>key\<in>set sh.
            \<exists>rest. write_row fss key = key @ rest @ [CHR 0x0A] \<and> no_lf (key @ rest)"
      using r(1) t by simp
    show "count_lf (concat (map (write_row fss) sh)) = length ?el" using r(2) t by simp
  qed
qed

theorem negative_sample_selects_all_witness:
  "\<exists>out. main (\<lambda>s. - 5) world_ab [''merge'', ''-n'', ''-5'', ''a.csv'', ''b.csv'']
            = Exit 0 (Some out)
          \<and> length (out_rows out) = 2 \<and> count_lf (concat (out_rows out)) = 2"
proof -
  define fss where "fss =
    [the (load_file (filestore_init ''a.csv'') (Some ''id,x\<newline>1,u\<newline>2,v\<newline>3,w\<newline>'')),
     the (load_file (filestore_init ''b.csv'') (Some ''id,y\<newline>2,p\<newline>3,q\<newline>4,r\<newline>''))]"
  have h1: "2 \<le> length [''merge'', ''-n'', ''-5'', ''a.csv'', ''b.csv'']" by simp
  have h2: "parse_opts (\<lambda>s. - 5) 100000 ''merged.csv'' (tl [''merge'', ''-n'', ''-5'', ''a.csv'', ''b.csv''])
            = (- 5, ''merged.csv'', [''a.csv'', ''b.csv''])" by simp
  have h3: "[''a.csv'', ''b.csv''] \<noteq> []" by simp
  have h4: "load_all world_ab [''a.csv'', ''b.csv''] = Some fss"
    unfolding fss_def by (rule world_ab_stores)
  have el: "build_eligible_ids fss = [''2'', ''3'']" unfolding fss_def by (rule world_ab_eligible)
  have h7: "build_eligible_ids fss \<noteq> []" by (simp add: el)
  have h8: "length (build_eligible_ids fss) < 2 ^ 31" by (simp add: el)
  have h9: "fs_writable world_ab ''merged.csv''" by (simp add: world_ab_def)
  obtain sh where
    "main (\<lambda>s. - 5) world_ab [''merge'', ''-n'', ''-5'', ''a.csv'', ''b.csv''] =
       Exit 0 (Some \<lparr>out_path = ''merged.csv'', out_header = write_header fss (id_name fss),
          out_rows = map (write_row fss) sh\<rparr>)"
    "length (map (write_row fss) sh) = length (build_eligible_ids fss)"
    "count_lf (concat (map (write_row fss) sh)) = length (build_eligible_ids fss)"
    using negative_sample_selects_all [OF h1 h2 h3 h4 _ _ h7 h8 h9] by auto
  then show ?thesis by (simp add: el)
qed

section \<open>Where the merger departs from the spec\<close>

text \<open>
  C4, on the code as it is. \<open>load_file\<close> has no test for an empty key field (the loops of
  code3.c and Merge.c have one). For a file with the header \<open>id,x\<close> and the data line
  \<open>,foo\<close>, whose key field is empty, it creates a row with the empty string as key, puts
  the empty key into \<open>id_to_idx\<close> (row 0) and stores \<open>foo\<close> in the row's cell.
\<close>

theorem empty_key_row_is_stored:
  "ids (the (load_file (filestore_init ''a.csv'') (Some ''id,x\<newline>,foo\<newline>''))) = [[]]
   \<and> cells (the (load_file (filestore_init ''a.csv'') (Some ''id,x\<newline>,foo\<newline>'')))
       = [[Some ''foo'']]
   \<and> hmap_get (id_to_idx (the (load_file (filestore_init ''a.csv'') (Some ''id,x\<newline>,foo\<newline>''))))
       [] = Some 0"
  by (simp add: run_defs)

text \<open>
  C5, on the code as it is. \<open>parse_claim_year_from_name\<close> reads up to four digits after
  \<open>claims_\<close> and asks for one only: for the path \<open>claims_12.csv\<close>, with two digits, it returns
  12, and \<open>load_file\<close> marks the file as a claims file of year 12.
\<close>

theorem short_claims_year_is_claims:
  "parse_claim_year_from_name ''claims_12.csv'' = 12
   \<and> is_claim (the (load_file (filestore_init ''claims_12.csv'') (Some ''id,x\<newline>1,u\<newline>'')))
   \<and> claim_year (the (load_file (filestore_init ''claims_12.csv'') (Some ''id,x\<newline>1,u\<newline>'')))
       = 12"
  by (simp add: run_defs)

text \<open>
  C6, on the code as it is. \<open>write_rows\<close> of merger2.c writes keys and cells with \<open>fprintf\<close>
  and \<open>fputs\<close>, without any quoting. A data line \<open>1,"a,b"\<close> gives the cell \<open>a,b\<close>, which
  holds the output delimiter; the row written for key 1 is \<open>1,a,b\<close>, the cell unquoted,
  where \<open>print_csv_field\<close> of code3.c writes \<open>"a,b"\<close>.
\<close>

theorem write_rows_does_not_quote:
  "cells (the (load_file (filestore_init ''a.csv'') (Some (''id,x'' @ [CHR 0x0A] @ ''1,'' @ [CHR 0x22] @ ''a,b'' @ [CHR 0x22, CHR 0x0A]))))
     = [[Some ''a,b'']]
   \<and> write_rows [the (load_file (filestore_init ''a.csv'') (Some (''id,x'' @ [CHR 0x0A] @ ''1,'' @ [CHR 0x22] @ ''a,b'' @ [CHR 0x22, CHR 0x0A])))]
        [''1''] 1
     = [''1,a,b'' @ [CHR 0x0A]]
   \<and> print_csv_field (Some ''a,b'') = [CHR 0x22] @ ''a,b'' @ [CHR 0x22]"
  by (simp add: run_defs write_rows_def write_row_def cell_text_def print_csv_field_def
        need_quotes_def)

lemma eligible_one_primary:
  "\<not> is_claim A \<Longrightarrow> build_eligible_ids [A] = ids A"
  by (simp add: build_eligible_ids_def base_index_def base_step_def in_other_primaries_def
        in_claims_def have_claims_def)







lemma load_all_unopenable:
  "\<exists>p\<in>set paths. fs_read w p = None \<Longrightarrow> load_all w paths = None"
proof (induction paths)
  case Nil
  then show ?case by simp
next
  case (Cons p ps)
  show ?case
  proof (cases "fs_read w p")
    case None
    then show ?thesis by (simp add: load_file_def)
  next
    case (Some d)
    then have "load_all w ps = None" using Cons by auto
    then show ?thesis by (simp split: option.split)
  qed
qed

text \<open>
  When one of the input files of a run cannot be opened, the run ends with exit status 1
  and no output file is written, whatever the other input files are.
\<close>

lemma unopenable_input_aborts:
  assumes "2 \<le> length argv"
    and "parse_opts atoi 100000 ''merged.csv'' (tl argv) = (N, outp, paths)"
    and "\<exists>p\<in>set paths. fs_read w p = None"
  shows "main atoi w argv = Exit 1 None"
proof -
  have "load_all w paths = None" using assms(3) by (rule load_all_unopenable)
  then show ?thesis using assms(1,2) by (simp add: main_def)
qed

text \<open>
  C9, on the code as it is. \<open>load_file\<close> of merger2.c exits with status 1 when it cannot
  open its file (the loop of \<open>main\<close> in code3.c reports the file and continues with the
  next one). In the environment \<open>world_ab\<close> the file \<open>a.csv\<close> can be opened and
  \<open>missing.csv\<close> cannot: the run on both ends with exit status 1 and without output,
  while the run on \<open>a.csv\<close> alone, the file that is left when \<open>missing.csv\<close> is skipped,
  exits with status 0 and writes its output.
\<close>

theorem unopenable_input_not_skipped:
  "fs_read world_ab ''a.csv'' \<noteq> None \<and> fs_read world_ab ''missing.csv'' = None
   \<and> main (\<lambda>s. 0) world_ab [''merge'', ''a.csv'', ''missing.csv''] = Exit 1 None
   \<and> (\<exists>out. main (\<lambda>s. 0) world_ab [''merge'', ''a.csv''] = Exit 0 (Some out))"
proof -
  define A where "A = the (load_file (filestore_init ''a.csv'')
                             (Some ''id,x\<newline>1,u\<newline>2,v\<newline>3,w\<newline>''))"
  have "load_all world_ab [''a.csv'', ''missing.csv''] = None"
    by (rule load_all_unopenable) (simp add: world_ab_def)
  then have 1: "main (\<lambda>s. 0) world_ab [''merge'', ''a.csv'', ''missing.csv''] = Exit 1 None"
    by (simp add: main_def)
  have l: "load_all world_ab [''a.csv''] = Some [A]"
    unfolding A_def by (intro load_all_Cons) (simp_all add: world_ab_def)
  have el: "build_eligible_ids [A] = [''1'', ''2'', ''3'']"
    using world_ab_a by (simp add: eligible_one_primary A_def)
  obtain sh where sh: "shuffle (rand_seq world_ab) (build_eligible_ids [A]) = Some sh"
      "mset sh = mset (build_eligible_ids [A])"
    using shuffle_perm [of "build_eligible_ids [A]" "rand_seq world_ab"] by (auto simp: el)
  have len: "length sh = length (build_eligible_ids [A])" using sh(2) by (rule mset_eq_length)
  have c: "size_t_of_int (clamp_sample 100000 (length (build_eligible_ids [A]))) = 3"
    by (simp add: el clamp_sample_def size_t_of_int_def int_of_size_t_def)
  have "main (\<lambda>s. 0) world_ab [''merge'', ''a.csv''] =
          Exit 0 (Some \<lparr>out_path = ''merged.csv'', out_header = write_header [A] (id_name [A]),
                         out_rows = map (write_row [A]) (take 3 sh)\<rparr>)"
    using _ _ _ l _ sh(1) len _ c
    by (rule main_run) (simp_all add: el world_ab_def len)
  then have 2: "\<exists>out. main (\<lambda>s. 0) world_ab [''merge'', ''a.csv''] = Exit 0 (Some out)"
    by simp
  show ?thesis using 1 2 by (simp add: world_ab_def)
qed

end
